theory Spec2Isabelle
  imports Main "HOL-Library.Word" "HOL-Library.Sublist"
begin

section \<open>Go runtime primitives used by the relay\<close>

subsection \<open>Buffered channels of strings\<close>

text \<open>
  Both variants of the relay create the per-connection queue with
  \<^verbatim>\<open>make(chan string, 10)\<close>.  A channel is its buffer (oldest element first),
  its capacity and whether \<^verbatim>\<open>close\<close> has been applied to it.
\<close>

record chan =
  buf :: "string list"
  cap :: nat
  closed :: bool

definition make_chan :: "nat \<Rightarrow> chan" where
  "make_chan n = \<lparr>buf = [], cap = n, closed = False\<rparr>"

text \<open>Run-time panics of the Go runtime that the relay's code can raise.\<close>

datatype panic = SendOnClosedChannel | CloseOfClosedChannel | NilPointerDereference

text \<open>
  The send statement \<^verbatim>\<open>ch <- v\<close> taken on its own: it panics on a closed channel,
  proceeds when the buffer has room and would block otherwise.
\<close>

datatype send_result = Sent chan | WouldBlock | SendPanics

definition chan_send :: "chan \<Rightarrow> string \<Rightarrow> send_result" where
  "chan_send ch v =
     (if closed ch then SendPanics
      else if length (buf ch) < cap ch then Sent (ch\<lparr>buf := buf ch @ [v]\<rparr>)
      else WouldBlock)"

text \<open>
  The receive expression \<^verbatim>\<open><-ch\<close>: the oldest buffered element when there is one;
  on an empty closed channel the zero value, at once; on an empty open channel the
  receiver blocks (\<open>None\<close>: the case is not ready).
\<close>

definition chan_recv :: "chan \<Rightarrow> (string \<times> chan) option" where
  "chan_recv ch =
     (case buf ch of
        v # rest \<Rightarrow> Some (v, ch\<lparr>buf := rest\<rparr>)
      | [] \<Rightarrow> if closed ch then Some ('''', ch) else None)"

definition chan_close :: "chan \<Rightarrow> panic + chan" where
  "chan_close ch = (if closed ch then Inl CloseOfClosedChannel else Inr (ch\<lparr>closed := True\<rparr>))"

subsection \<open>Formatting\<close>

text \<open>The verb \<^verbatim>\<open>%d\<close> of \<^verbatim>\<open>fmt\<close> on an integer: decimal digits, a minus sign first
  when the number is negative.\<close>

definition digit_char :: "nat \<Rightarrow> char" where
  "digit_char d = char_of (48 + d)"

fun digits :: "nat \<Rightarrow> string" where
  "digits n = (if n < 10 then [digit_char n] else digits (n div 10) @ [digit_char (n mod 10)])"

declare digits.simps [simp del]

definition fmt_d :: "int \<Rightarrow> string" where
  "fmt_d i = (if i < 0 then CHR ''-'' # digits (nat (- i)) else digits (nat i))"

text \<open>Reading a decimal numeral back, used to show that \<open>fmt_d\<close> loses nothing.\<close>

definition digit_val :: "char \<Rightarrow> nat" where
  "digit_val c = of_char c - 48"

definition undigits :: "string \<Rightarrow> nat" where
  "undigits s = foldl (\<lambda>a c. 10 * a + digit_val c) 0 s"

definition parse_d :: "string \<Rightarrow> int" where
  "parse_d s = (if s \<noteq> [] \<and> hd s = CHR ''-'' then - int (undigits (tl s)) else int (undigits s))"

subsection \<open>Process environment\<close>

type_synonym env = "string \<rightharpoonup> string"

text \<open>\<^verbatim>\<open>os.Getenv\<close>: the value of the variable, the empty string when it is unset.\<close>

definition Getenv :: "env \<Rightarrow> string \<Rightarrow> string" where
  "Getenv e k = (case e k of None \<Rightarrow> '''' | Some v \<Rightarrow> v)"

section \<open>Shared topology: the client registry and its coordinator\<close>

text \<open>
  The variant with one global subscription keeps
  \<^verbatim>\<open>var clients = make(map[*SSEClient]bool)\<close>.  A \<^verbatim>\<open>*SSEClient\<close> is an address; the
  store \<open>chans\<close> gives the state of the channel each allocated client holds.
\<close>

type_synonym client = nat

record registry =
  clients :: "client \<rightharpoonup> bool"
  chans :: "client \<Rightarrow> chan"

text \<open>
  The commands \<open>clientManager\<close> selects on.  Go leaves the order of
  \<^verbatim>\<open>for client := range clients\<close> unspecified, so a broadcast carries the order in
  which this iteration yields the keys; \<open>range_order\<close> says the list is such an order.
\<close>

datatype command = AddClient client | RemoveClient client | Broadcast string "client list"

definition range_order :: "registry \<Rightarrow> client list \<Rightarrow> bool" where
  "range_order s order \<longleftrightarrow> distinct order \<and> set order = dom (clients s)"

text \<open>The body of \<^verbatim>\<open>case msg := <-broadcast\<close>: a non-blocking send to every client,
  and on \<^verbatim>\<open>default\<close> the client is deleted from the map and its channel closed.\<close>

fun broadcast_range :: "string \<Rightarrow> client list \<Rightarrow> registry \<Rightarrow> panic + registry" where
  "broadcast_range msg [] s = Inr s"
| "broadcast_range msg (c # cs) s =
     (case chan_send (chans s c) msg of
        SendPanics \<Rightarrow> Inl SendOnClosedChannel
      | Sent ch \<Rightarrow> broadcast_range msg cs (s\<lparr>chans := (chans s)(c := ch)\<rparr>)
      | WouldBlock \<Rightarrow>
          (let s1 = s\<lparr>clients := (clients s)(c := None)\<rparr> in
           case chan_close (chans s1 c) of
             Inl p \<Rightarrow> Inl p
           | Inr ch \<Rightarrow> broadcast_range msg cs (s1\<lparr>chans := (chans s1)(c := ch)\<rparr>)))"

fun clientManager_step :: "registry \<Rightarrow> command \<Rightarrow> panic + registry" where
  "clientManager_step s (AddClient c) = Inr (s\<lparr>clients := (clients s)(c \<mapsto> True)\<rparr>)"
| "clientManager_step s (RemoveClient c) =
     (let s1 = s\<lparr>clients := (clients s)(c := None)\<rparr> in
      case chan_close (chans s1 c) of
        Inl p \<Rightarrow> Inl p
      | Inr ch \<Rightarrow> Inr (s1\<lparr>chans := (chans s1)(c := ch)\<rparr>))"
| "clientManager_step s (Broadcast msg order) = broadcast_range msg order s"

text \<open>The \<^verbatim>\<open>for\<close> loop of \<open>clientManager\<close> over the commands it receives.  A panic in
  this goroutine is not recovered by anything: it ends the process.\<close>

fun clientManager :: "registry \<Rightarrow> command list \<Rightarrow> panic + registry" where
  "clientManager s [] = Inr s"
| "clientManager s (cmd # cmds) =
     (case clientManager_step s cmd of
        Inl p \<Rightarrow> Inl p
      | Inr s' \<Rightarrow> clientManager s' cmds)"

text \<open>What \<open>sseHandler\<close> does before it sends on \<open>addClient\<close>:
  \<^verbatim>\<open>client := &SSEClient{channel: make(chan string, 10)}\<close> at a fresh address.\<close>

definition new_client :: "registry \<Rightarrow> client \<Rightarrow> registry" where
  "new_client s c = s\<lparr>chans := (chans s)(c := make_chan 10)\<rparr>"

definition empty_registry :: registry where
  "empty_registry = \<lparr>clients = Map.empty, chans = (\<lambda>_. make_chan 10)\<rparr>"

text \<open>The invariant of the registry: a registered client's channel is open and holds at
  most its capacity.\<close>

definition registry_ok :: "registry \<Rightarrow> bool" where
  "registry_ok s \<longleftrightarrow>
     (\<forall>c. clients s c \<noteq> None \<longrightarrow> \<not> closed (chans s c) \<and> length (buf (chans s c)) \<le> cap (chans s c))"

text \<open>One broadcast described client by client, for the proofs: what a non-blocking
  send followed by eviction on \<^verbatim>\<open>default\<close> leaves of a channel and of the registry.\<close>

definition offer :: "string \<Rightarrow> chan \<Rightarrow> chan" where
  "offer msg ch =
     (if length (buf ch) < cap ch then ch\<lparr>buf := buf ch @ [msg]\<rparr> else ch\<lparr>closed := True\<rparr>)"

definition after_broadcast :: "string \<Rightarrow> client list \<Rightarrow> registry \<Rightarrow> registry" where
  "after_broadcast msg order s =
     s\<lparr>clients := (\<lambda>c. if c \<in> set order \<and> \<not> length (buf (chans s c)) < cap (chans s c)
                        then None else clients s c),
       chans := (\<lambda>c. if c \<in> set order then offer msg (chans s c) else chans s c)\<rparr>"

section \<open>Token verifier\<close>

subsection \<open>Claims\<close>

text \<open>Instants are Unix times.  \<open>SSETokenClaims\<close> embeds \<^verbatim>\<open>jwt.RegisteredClaims\<close> and adds
  \<^verbatim>\<open>UserID int64\<close> (JSON name \<^verbatim>\<open>user_id\<close>); a nil \<^verbatim>\<open>*NumericDate\<close> is \<open>None\<close>.\<close>

type_synonym time = int

record RegisteredClaims =
  Issuer :: string
  Subject :: string
  Audience :: "string list"
  ExpiresAt :: "time option"
  NotBefore :: "time option"
  IssuedAt :: "time option"
  ID :: string

record SSETokenClaims = RegisteredClaims +
  UserID :: "64 word"

subsection \<open>The JWT library the verifier calls\<close>

text \<open>
  \<open>verifySseToken\<close> hands the token to \<^verbatim>\<open>jwt.ParseWithClaims\<close> of
  \<^verbatim>\<open>github.com/golang-jwt/jwt/v5\<close> (the module file pins v5.3.0), which is not part of
  the repository.  Its pipeline is written out here step by step as the library
  performs it with a default parser: split into three segments, decode header and
  claims, look the signing method up, decode the signature, ask the key function for
  the key, verify the signature, validate the registered claims.  The primitives
  underneath are parameters: base64url decoding, JSON decoding of the header (giving
  its \<^verbatim>\<open>alg\<close> entry when that is a string) and of the claims, the HMAC, and the clock.
\<close>

datatype hash = SHA256 | SHA384 | SHA512

datatype signing_method =
    SigningMethodHMAC hash
  | SigningMethodRSA hash
  | SigningMethodRSAPSS hash
  | SigningMethodECDSA hash
  | SigningMethodEd25519
  | SigningMethodNone

record jwt_lib =
  DecodeSegment :: "string \<Rightarrow> string option"
  UnmarshalHeader :: "string \<Rightarrow> string option option"
  UnmarshalClaims :: "string \<Rightarrow> SSETokenClaims option"
  hmac_Sum :: "hash \<Rightarrow> string \<Rightarrow> string \<Rightarrow> string"
  time_Now :: time

datatype claim_error = ErrTokenExpired | ErrTokenNotValidYet

datatype jwt_error =
    ErrTokenMalformed
  | ErrTokenUnverifiable
  | ErrTokenSignatureInvalid
  | ErrTokenInvalidClaims "claim_error list"

record token =
  Method :: signing_method
  Claims :: SSETokenClaims
  Signature :: string
  Valid :: bool

text \<open>\<^verbatim>\<open>strings.Cut\<close> at a one-character separator, and the library's \<open>splitToken\<close>: exactly
  two delimiters, three parts.\<close>

fun cut :: "char \<Rightarrow> string \<Rightarrow> (string \<times> string) option" where
  "cut d [] = None"
| "cut d (c # cs) =
     (if c = d then Some ([], cs)
      else (case cut d cs of None \<Rightarrow> None | Some (before, after) \<Rightarrow> Some (c # before, after)))"

definition splitToken :: "string \<Rightarrow> (string \<times> string \<times> string) option" where
  "splitToken tokenString =
     (case cut (CHR ''.'') tokenString of
        None \<Rightarrow> None
      | Some (header, remain) \<Rightarrow>
          (case cut (CHR ''.'') remain of
             None \<Rightarrow> None
           | Some (claims, remain2) \<Rightarrow>
               (case cut (CHR ''.'') remain2 of
                  Some unexpected \<Rightarrow> None
                | None \<Rightarrow> Some (header, claims, remain2))))"

text \<open>The signing methods the library registers, by their \<^verbatim>\<open>alg\<close> names.\<close>

definition GetSigningMethod :: "string \<Rightarrow> signing_method option" where
  "GetSigningMethod alg =
     (if alg = ''HS256'' then Some (SigningMethodHMAC SHA256)
      else if alg = ''HS384'' then Some (SigningMethodHMAC SHA384)
      else if alg = ''HS512'' then Some (SigningMethodHMAC SHA512)
      else if alg = ''RS256'' then Some (SigningMethodRSA SHA256)
      else if alg = ''RS384'' then Some (SigningMethodRSA SHA384)
      else if alg = ''RS512'' then Some (SigningMethodRSA SHA512)
      else if alg = ''PS256'' then Some (SigningMethodRSAPSS SHA256)
      else if alg = ''PS384'' then Some (SigningMethodRSAPSS SHA384)
      else if alg = ''PS512'' then Some (SigningMethodRSAPSS SHA512)
      else if alg = ''ES256'' then Some (SigningMethodECDSA SHA256)
      else if alg = ''ES384'' then Some (SigningMethodECDSA SHA384)
      else if alg = ''ES512'' then Some (SigningMethodECDSA SHA512)
      else if alg = ''EdDSA'' then Some SigningMethodEd25519
      else if alg = ''none'' then Some SigningMethodNone
      else None)"

definition ParseUnverified ::
  "jwt_lib \<Rightarrow> string \<Rightarrow> jwt_error + (token \<times> string \<times> string \<times> string)" where
  "ParseUnverified L tokenString =
     (case splitToken tokenString of
        None \<Rightarrow> Inl ErrTokenMalformed
      | Some (p0, p1, p2) \<Rightarrow>
     (case DecodeSegment L p0 of
        None \<Rightarrow> Inl ErrTokenMalformed
      | Some headerBytes \<Rightarrow>
     (case UnmarshalHeader L headerBytes of
        None \<Rightarrow> Inl ErrTokenMalformed
      | Some alg \<Rightarrow>
     (case DecodeSegment L p1 of
        None \<Rightarrow> Inl ErrTokenMalformed
      | Some claimBytes \<Rightarrow>
     (case UnmarshalClaims L claimBytes of
        None \<Rightarrow> Inl ErrTokenMalformed
      | Some claims \<Rightarrow>
     (case alg of
        None \<Rightarrow> Inl ErrTokenUnverifiable
      | Some name \<Rightarrow>
     (case GetSigningMethod name of
        None \<Rightarrow> Inl ErrTokenUnverifiable
      | Some m \<Rightarrow>
          Inr (\<lparr>Method = m, Claims = claims, Signature = '''', Valid = False\<rparr>,
               p0, p1, p2))))))))"

text \<open>\<^verbatim>\<open>Method.Verify\<close> with a key of type \<^verbatim>\<open>[]byte\<close>, the only type the relay's key
  function returns: the HMAC methods compare the signature with the MAC of the signing
  string; every other method refuses a byte-slice key.\<close>

fun Verify :: "jwt_lib \<Rightarrow> signing_method \<Rightarrow> string \<Rightarrow> string \<Rightarrow> string \<Rightarrow> bool" where
  "Verify L (SigningMethodHMAC h) signingString sig key \<longleftrightarrow> sig = hmac_Sum L h key signingString"
| "Verify L (SigningMethodRSA h) signingString sig key \<longleftrightarrow> False"
| "Verify L (SigningMethodRSAPSS h) signingString sig key \<longleftrightarrow> False"
| "Verify L (SigningMethodECDSA h) signingString sig key \<longleftrightarrow> False"
| "Verify L SigningMethodEd25519 signingString sig key \<longleftrightarrow> False"
| "Verify L SigningMethodNone signingString sig key \<longleftrightarrow> False"

text \<open>The default validator: \<^verbatim>\<open>exp\<close> and \<^verbatim>\<open>nbf\<close> are checked when present, with no
  leeway; nothing else is checked by default.\<close>

definition Validate :: "time \<Rightarrow> SSETokenClaims \<Rightarrow> claim_error list" where
  "Validate now c =
     (case ExpiresAt c of
        None \<Rightarrow> []
      | Some exp \<Rightarrow> if now < exp then [] else [ErrTokenExpired]) @
     (case NotBefore c of
        None \<Rightarrow> []
      | Some nbf \<Rightarrow> if now < nbf then [ErrTokenNotValidYet] else [])"

definition ParseWithClaims ::
  "jwt_lib \<Rightarrow> string \<Rightarrow> (token \<Rightarrow> string + string) \<Rightarrow> jwt_error + token" where
  "ParseWithClaims L tokenString keyFunc =
     (case ParseUnverified L tokenString of
        Inl e \<Rightarrow> Inl e
      | Inr (tok, p0, p1, p2) \<Rightarrow>
     (case DecodeSegment L p2 of
        None \<Rightarrow> Inl ErrTokenMalformed
      | Some sig \<Rightarrow>
          (let tok1 = tok\<lparr>Signature := sig\<rparr>; text = p0 @ ''.'' @ p1 in
           case keyFunc tok1 of
             Inl e \<Rightarrow> Inl ErrTokenUnverifiable
           | Inr key \<Rightarrow>
               if \<not> Verify L (Method tok1) text sig key then Inl ErrTokenSignatureInvalid
               else (case Validate (time_Now L) (Claims tok1) of
                       [] \<Rightarrow> Inr (tok1\<lparr>Valid := True\<rparr>)
                     | e # es \<Rightarrow> Inl (ErrTokenInvalidClaims (e # es))))))"

subsection \<open>\<open>verifySseToken\<close>\<close>

datatype verify_error = TokenParseError jwt_error | InvalidToken

text \<open>The key function the relay passes: only \<^verbatim>\<open>*jwt.SigningMethodHMAC\<close> passes the type
  assertion; the key is the secret's bytes.\<close>

definition keyFunc :: "string \<Rightarrow> token \<Rightarrow> string + string" where
  "keyFunc secret tok =
     (case Method tok of
        SigningMethodHMAC h \<Rightarrow> Inr secret
      | _ \<Rightarrow> Inl ''unexpected signing method'')"

definition verifySseToken :: "jwt_lib \<Rightarrow> string \<Rightarrow> string \<Rightarrow> verify_error + SSETokenClaims" where
  "verifySseToken L tokenString secret =
     (case ParseWithClaims L tokenString (keyFunc secret) of
        Inl err \<Rightarrow> Inl (TokenParseError err)
      | Inr tok \<Rightarrow> if Valid tok then Inr (Claims tok) else Inl InvalidToken)"

subsection \<open>What a token string carries\<close>

text \<open>Readings of a token string used to state the verifier's properties: the
  algorithm its header declares, the claims its second segment decodes to, and whether
  its third segment is the HMAC of the first two under a given key, with the hash the
  header names.\<close>

definition header_alg :: "jwt_lib \<Rightarrow> string \<Rightarrow> string option" where
  "header_alg L tokenString =
     (case splitToken tokenString of
        None \<Rightarrow> None
      | Some (p0, p1, p2) \<Rightarrow>
          (case DecodeSegment L p0 of
             None \<Rightarrow> None
           | Some headerBytes \<Rightarrow>
               (case UnmarshalHeader L headerBytes of None \<Rightarrow> None | Some alg \<Rightarrow> alg)))"

definition is_hmac_alg :: "string \<Rightarrow> bool" where
  "is_hmac_alg alg \<longleftrightarrow> alg = ''HS256'' \<or> alg = ''HS384'' \<or> alg = ''HS512''"

definition embedded_claims :: "jwt_lib \<Rightarrow> string \<Rightarrow> SSETokenClaims option" where
  "embedded_claims L tokenString =
     (case splitToken tokenString of
        None \<Rightarrow> None
      | Some (p0, p1, p2) \<Rightarrow>
          (case DecodeSegment L p1 of
             None \<Rightarrow> None
           | Some claimBytes \<Rightarrow> UnmarshalClaims L claimBytes))"

definition hmac_signed :: "jwt_lib \<Rightarrow> string \<Rightarrow> string \<Rightarrow> bool" where
  "hmac_signed L tokenString key \<longleftrightarrow>
     (case splitToken tokenString of
        None \<Rightarrow> False
      | Some (p0, p1, p2) \<Rightarrow>
          (case header_alg L tokenString of
             None \<Rightarrow> False
           | Some alg \<Rightarrow>
               (case GetSigningMethod alg of
                  Some (SigningMethodHMAC h) \<Rightarrow>
                    DecodeSegment L p2 = Some (hmac_Sum L h key (p0 @ ''.'' @ p1))
                | _ \<Rightarrow> False)))"

text \<open>The string the signature is computed over (the first two segments joined by a
  dot), and the hash of the HMAC method the header names, if it names one.\<close>

definition signing_input :: "string \<Rightarrow> string" where
  "signing_input tokenString =
     (case splitToken tokenString of
        None \<Rightarrow> ''''
      | Some (p0, p1, p2) \<Rightarrow> p0 @ ''.'' @ p1)"

definition hmac_hash :: "jwt_lib \<Rightarrow> string \<Rightarrow> hash option" where
  "hmac_hash L tokenString =
     (case header_alg L tokenString of
        None \<Rightarrow> None
      | Some alg \<Rightarrow>
          (case GetSigningMethod alg of
             Some (SigningMethodHMAC h) \<Rightarrow> Some h
           | _ \<Rightarrow> None))"

subsection \<open>HMAC\<close>

text \<open>
  The HMAC methods of the library compute the MAC with \<^verbatim>\<open>crypto/hmac\<close> of the Go
  standard library: a key longer than the hash's block size is hashed first, the key
  is then filled up with zero bytes to the block size, and the MAC is the hash of the
  key xor \<^verbatim>\<open>0x5c\<close> followed by the hash of the key xor \<^verbatim>\<open>0x36\<close> followed by the message.
  The hash function itself stays a parameter.
\<close>

definition BlockSize :: "hash \<Rightarrow> nat" where
  "BlockSize h = (case h of SHA256 \<Rightarrow> 64 | SHA384 \<Rightarrow> 128 | SHA512 \<Rightarrow> 128)"

definition xor_byte :: "nat \<Rightarrow> char \<Rightarrow> char" where
  "xor_byte b c = char_of (xor (of_char c) b)"

definition hmac_key :: "(string \<Rightarrow> string) \<Rightarrow> nat \<Rightarrow> string \<Rightarrow> string" where
  "hmac_key H blocksize key =
     (let k = (if blocksize < length key then H key else key)
      in k @ replicate (blocksize - length k) (CHR 0x00))"

definition hmac :: "(string \<Rightarrow> string) \<Rightarrow> nat \<Rightarrow> string \<Rightarrow> string \<Rightarrow> string" where
  "hmac H blocksize key message =
     (let k = hmac_key H blocksize key;
          ipad = map (xor_byte 0x36) k;
          opad = map (xor_byte 0x5c) k
      in H (opad @ H (ipad @ message)))"

text \<open>A library whose MAC is this HMAC over the hash functions \<open>H\<close>.\<close>

definition with_hmac :: "(hash \<Rightarrow> string \<Rightarrow> string) \<Rightarrow> jwt_lib \<Rightarrow> jwt_lib" where
  "with_hmac H L = L\<lparr>hmac_Sum := (\<lambda>h. hmac (H h) (BlockSize h))\<rparr>"

section \<open>Stream dispatcher and per-connection bridge\<close>

subsection \<open>Frames\<close>

text \<open>\<^verbatim>\<open>fmt.Fprintf(w, "data: %s\n\n", msg)\<close>: the bytes one call writes.\<close>

definition sse_frame :: "string \<Rightarrow> string" where
  "sse_frame msg = ''data: '' @ msg @ ''\<newline>\<newline>''"

text \<open>
  One turn of the dispatcher's \<^verbatim>\<open>select\<close> in which the queue case is taken, as both
  variants of \<open>sseHandler\<close> write it: receive a message and write its frame.  The
  response writer is the list of writes made so far.  With nothing to receive the
  dispatcher stays blocked and nothing changes.
\<close>

definition dispatch_step :: "chan \<Rightarrow> string list \<Rightarrow> chan \<times> string list" where
  "dispatch_step ch w =
     (case chan_recv ch of
        None \<Rightarrow> (ch, w)
      | Some (msg, ch') \<Rightarrow> (ch', w @ [sse_frame msg]))"

text \<open>The \<^verbatim>\<open>for\<close> loop of the dispatcher taking the queue case \<open>n\<close> times before the
  request's context is done.\<close>

fun dispatch_loop :: "nat \<Rightarrow> chan \<Rightarrow> string list \<Rightarrow> chan \<times> string list" where
  "dispatch_loop 0 ch w = (ch, w)"
| "dispatch_loop (Suc n) ch w = (case dispatch_step ch w of (ch', w') \<Rightarrow> dispatch_loop n ch' w')"

subsection \<open>Per-connection topology: \<open>subscribeToUserChannel\<close>\<close>

definition channelName :: "64 word \<Rightarrow> string" where
  "channelName userID = ''events:user:'' @ fmt_d (sint userID)"

text \<open>The bus as a subscriber sees it: for a channel name, either the subscription
  fails, or the messages that arrive on it until the context is done (a nil message is
  \<open>None\<close>).  \<^verbatim>\<open>rdb.Subscribe(ctx, channelName)\<close> subscribes to a channel by its exact name
  (it is not a pattern subscription), so a bus that carries the given publications,
  each a channel name and a payload, hands a subscription the payloads published on
  the channel of that name, in order.\<close>

type_synonym bus = "string \<Rightarrow> string option list option"

definition bus_of :: "(string \<times> string) list \<Rightarrow> bus" where
  "bus_of published name =
     Some (map (\<lambda>(n, payload). Some payload) (filter (\<lambda>(n, payload). n = name) published))"

datatype log_line = LogUserReceived "64 word" string | LogDropping "64 word"

text \<open>One connection: its queue, what has been written to the client, and the log
  lines of the forwarding loop.\<close>

record conn =
  queue :: chan
  writes :: "string list"
  logged :: "log_line list"

definition new_conn :: conn where
  "new_conn = \<lparr>queue = make_chan 10, writes = [], logged = []\<rparr>"

text \<open>The body of \<^verbatim>\<open>case msg := <-ch\<close> in \<open>subscribeToUserChannel\<close>: a nil message is
  skipped; a payload is logged and sent without blocking, and on \<^verbatim>\<open>default\<close> the drop is
  logged.\<close>

definition forward :: "64 word \<Rightarrow> string option \<Rightarrow> conn \<Rightarrow> panic + conn" where
  "forward userID msg s =
     (case msg of
        None \<Rightarrow> Inr s
      | Some payload \<Rightarrow>
          (let s1 = s\<lparr>logged := logged s @ [LogUserReceived userID payload]\<rparr> in
           case chan_send (queue s1) payload of
             Sent ch \<Rightarrow> Inr (s1\<lparr>queue := ch\<rparr>)
           | WouldBlock \<Rightarrow> Inr (s1\<lparr>logged := logged s1 @ [LogDropping userID]\<rparr>)
           | SendPanics \<Rightarrow> Inl SendOnClosedChannel))"

text \<open>The two goroutines of a connection interleave: the bridge receives the next bus
  message, or the dispatcher takes a turn.\<close>

datatype conn_event = BusMessage "string option" | QueueRead

fun conn_step :: "64 word \<Rightarrow> conn \<Rightarrow> conn_event \<Rightarrow> panic + conn" where
  "conn_step userID s (BusMessage msg) = forward userID msg s"
| "conn_step userID s QueueRead =
     (case dispatch_step (queue s) (writes s) of (ch, w) \<Rightarrow> Inr (s\<lparr>queue := ch, writes := w\<rparr>))"

fun run_conn :: "64 word \<Rightarrow> conn \<Rightarrow> conn_event list \<Rightarrow> panic + conn" where
  "run_conn userID s [] = Inr s"
| "run_conn userID s (ev # evs) =
     (case conn_step userID s ev of
        Inl p \<Rightarrow> Inl p
      | Inr s' \<Rightarrow> run_conn userID s' evs)"

text \<open>\<open>subscribeToUserChannel\<close> taken on its own, with no dispatcher turn in between:
  subscribe to the channel named after the user ID; when the confirmation fails, log
  and return; otherwise forward each message that arrives until the context is done.\<close>

definition subscribeToUserChannel :: "bus \<Rightarrow> 64 word \<Rightarrow> conn \<Rightarrow> panic + conn" where
  "subscribeToUserChannel b userID s =
     (case b (channelName userID) of
        None \<Rightarrow> Inr s
      | Some msgs \<Rightarrow> run_conn userID s (map BusMessage msgs))"

text \<open>The payloads the bridge received from the bus, in order, and whether the loop
  logged a drop.\<close>

fun received :: "conn_event list \<Rightarrow> string list" where
  "received [] = []"
| "received (BusMessage (Some payload) # evs) = payload # received evs"
| "received (BusMessage None # evs) = received evs"
| "received (QueueRead # evs) = received evs"

fun is_drop :: "log_line \<Rightarrow> bool" where
  "is_drop (LogDropping userID) = True"
| "is_drop (LogUserReceived userID payload) = False"

definition drops :: "conn \<Rightarrow> nat" where
  "drops s = length (filter is_drop (logged s))"

section \<open>The HTTP handler\<close>

record request =
  query :: "string \<rightharpoonup> string list"

text \<open>\<^verbatim>\<open>r.URL.Query().Get(key)\<close>: the first value of the key, the empty string without one.\<close>

definition Query_Get :: "request \<Rightarrow> string \<Rightarrow> string" where
  "Query_Get r k = (case query r k of None \<Rightarrow> '''' | Some [] \<Rightarrow> '''' | Some (v # vs) \<Rightarrow> v)"

text \<open>The response as the handler leaves it: headers, the status passed to
  \<^verbatim>\<open>WriteHeader\<close> (if any) and the body.  A handler that returns without writing a
  status has the server send 200.\<close>

record response =
  header :: "string \<rightharpoonup> string"
  status :: "nat option"
  body :: string

definition empty_response :: response where
  "empty_response = \<lparr>header = Map.empty, status = None, body = ''''\<rparr>"

definition Header_Set :: "response \<Rightarrow> string \<Rightarrow> string \<Rightarrow> response" where
  "Header_Set w k v = w\<lparr>header := (header w)(k \<mapsto> v)\<rparr>"

definition WriteHeader :: "response \<Rightarrow> nat \<Rightarrow> response" where
  "WriteHeader w code = (if status w = None then w\<lparr>status := Some code\<rparr> else w)"

definition http_Error :: "response \<Rightarrow> string \<Rightarrow> nat \<Rightarrow> response" where
  "http_Error w msg code =
     (let w1 = Header_Set w ''Content-Type'' ''text/plain; charset=utf-8'';
          w2 = Header_Set w1 ''X-Content-Type-Options'' ''nosniff'';
          w3 = WriteHeader w2 code
      in w3\<lparr>body := body w3 @ msg @ ''\<newline>''\<rparr>)"

definition status_sent :: "response \<Rightarrow> nat" where
  "status_sent w = (case status w of None \<Rightarrow> 200 | Some code \<Rightarrow> code)"

text \<open>What the process depends on outside itself: the Redis client library's URL
  parser, whether the server answers a ping, and whether the listener can be opened.\<close>

record platform =
  ParseURL :: "string \<Rightarrow> string option"
  Ping :: "string \<Rightarrow> bool"
  Listen :: "string \<Rightarrow> bool"

text \<open>\<open>getRedisClient\<close>: \<open>Inl\<close> is the message of \<^verbatim>\<open>log.Fatal\<close>, which exits the process.\<close>

definition getRedisClient :: "platform \<Rightarrow> env \<Rightarrow> string + string" where
  "getRedisClient P e =
     (let url = Getenv e ''GO_SSE_SIDECAR_REDIS_URL'' in
      if url = '''' then Inl ''GO_SSE_SIDECAR_REDIS_URL not set''
      else (case ParseURL P url of
              None \<Rightarrow> Inl ''Failed to parse Redis URL''
            | Some opts \<Rightarrow> Inr opts))"

text \<open>How a call of the handler ends or what it goes on to do: it returns with the
  response as written; it starts \<open>subscribeToUserChannel\<close> for the user ID with a new
  queue and enters the dispatch loop (per-connection topology); it registers a new client
  with a new queue and enters the dispatch loop (shared topology); it panics; or it
  exits the process.\<close>

datatype outcome =
    Returned response
  | Subscribed response "64 word" chan
  | Registered response chan
  | Panicked panic
  | ProcessExit string

fun allocates :: "outcome \<Rightarrow> bool" where
  "allocates (Subscribed w userID ch) = True"
| "allocates (Registered w ch) = True"
| "allocates (Returned w) = False"
| "allocates (Panicked p) = False"
| "allocates (ProcessExit m) = False"

definition cors :: "response \<Rightarrow> response" where
  "cors w = Header_Set (Header_Set w ''Access-Control-Allow-Origin'' ''*'')
              ''Access-Control-Allow-Credentials'' ''true''"

definition sse_headers :: "response \<Rightarrow> response" where
  "sse_headers w = Header_Set (Header_Set (Header_Set w ''Content-Type'' ''text/event-stream'')
                     ''Cache-Control'' ''no-cache'') ''Connection'' ''keep-alive''"

text \<open>\<open>sseHandler\<close> of the per-connection variant, up to the dispatch loop.  \<open>flusher\<close>
  says whether the response writer is an \<^verbatim>\<open>http.Flusher\<close>.  The log line after a
  successful verification reads \<^verbatim>\<open>claims.ExpiresAt.Time\<close>, which dereferences a nil
  pointer when the token carries no \<^verbatim>\<open>exp\<close>.\<close>

definition sseHandler :: "jwt_lib \<Rightarrow> platform \<Rightarrow> env \<Rightarrow> bool \<Rightarrow> request \<Rightarrow> outcome" where
  "sseHandler L P e flusher r =
     (let w = cors empty_response;
          token = Query_Get r ''ssetoken'';
          secret = Getenv e ''GO_SSE_SIDECAR_TOKEN''
      in case verifySseToken L token secret of
           Inl err \<Rightarrow> Returned (http_Error w ''Unauthorized'' 401)
         | Inr claims \<Rightarrow>
             (case ExpiresAt claims of
                None \<Rightarrow> Panicked NilPointerDereference
              | Some expires \<Rightarrow>
                  if \<not> flusher then Returned (http_Error w ''Streaming unsupported'' 500)
                  else (case getRedisClient P e of
                          Inl m \<Rightarrow> ProcessExit m
                        | Inr rdb \<Rightarrow>
                            Subscribed (sse_headers w) (UserID claims) (make_chan 10))))"

text \<open>\<open>sseHandler\<close> of the shared variant: on a verification error it prints the error
  and returns; nothing is written to the response.\<close>

definition sseHandler_shared :: "jwt_lib \<Rightarrow> env \<Rightarrow> bool \<Rightarrow> request \<Rightarrow> outcome" where
  "sseHandler_shared L e flusher r =
     (let w = cors empty_response;
          token = Query_Get r ''ssetoken'';
          secret = Getenv e ''GO_SSE_SIDECAR_TOKEN''
      in case verifySseToken L token secret of
           Inl err \<Rightarrow> Returned w
         | Inr claims \<Rightarrow>
             (case ExpiresAt claims of
                None \<Rightarrow> Panicked NilPointerDereference
              | Some expires \<Rightarrow>
                  if \<not> flusher then Returned (http_Error w ''Streaming unsupported'' 500)
                  else Registered (sse_headers w) (make_chan 10)))"

section \<open>Startup\<close>

text \<open>\<open>main\<close>, with \<open>e\<close> the environment after \<^verbatim>\<open>godotenv.Load\<close>.  Both variants make the
  same checks in the same order; the shared variant also starts \<open>redisSubscriber\<close> and
  \<open>clientManager\<close> before it registers the handler.  \<^verbatim>\<open>http.ListenAndServe\<close> returns
  only on failure, and \<^verbatim>\<open>log.Fatal\<close> then exits.\<close>

datatype process = Exits string | Serves string

definition main :: "platform \<Rightarrow> env \<Rightarrow> process" where
  "main P e =
     (case getRedisClient P e of
        Inl m \<Rightarrow> Exits m
      | Inr rdb \<Rightarrow>
          if \<not> Ping P rdb then Exits ''Redis error''
          else (let port = Getenv e ''GO_SSE_SIDECAR_PORT'';
                    port = (if port = '''' then ''5687'' else port)
                in if Listen P ('':'' @ port) then Serves port else Exits ''ListenAndServe''))"

section \<open>Invariants, runs and instances\<close>

text \<open>The invariant of a per-connection queue (the per-connection variant never closes
  it), and the frames a connection has accepted so far: those written, then those of
  the payloads still queued.\<close>

definition conn_ok :: "conn \<Rightarrow> bool" where
  "conn_ok s \<longleftrightarrow> \<not> closed (queue s) \<and> cap (queue s) = 10 \<and> length (buf (queue s)) \<le> 10"

definition accepted :: "conn \<Rightarrow> string list" where
  "accepted s = writes s @ map sse_frame (buf (queue s))"

text \<open>A small instance of the library's primitives for concrete evaluations: segments
  decode to themselves, the header's bytes are its \<^verbatim>\<open>alg\<close>, four claim sets are known by
  name, the MAC of a text under a key is the key followed by the text without its dot,
  and the clock reads 100.\<close>

definition demo_claims :: "time option \<Rightarrow> time option \<Rightarrow> SSETokenClaims" where
  "demo_claims expires notBefore =
     \<lparr>Issuer = '''', Subject = '''', Audience = [], ExpiresAt = expires, NotBefore = notBefore,
      IssuedAt = None, ID = '''', UserID = 42\<rparr>"

definition demo_lib :: jwt_lib where
  "demo_lib =
     \<lparr>DecodeSegment = Some,
      UnmarshalHeader = (\<lambda>b. Some (Some b)),
      UnmarshalClaims = (\<lambda>b.
        if b = ''fresh'' then Some (demo_claims (Some 200) None)
        else if b = ''early'' then Some (demo_claims (Some 200) (Some 150))
        else if b = ''stale'' then Some (demo_claims (Some 50) None)
        else if b = ''open'' then Some (demo_claims None None)
        else None),
      hmac_Sum = (\<lambda>h key text. key @ ''/'' @ filter (\<lambda>c. c \<noteq> CHR ''.'') text),
      time_Now = 100\<rparr>"

text \<open>The same instance with the MAC computed as HMAC over a stand-in hash function, and
  with the segment \<^verbatim>\<open>sig\<close> standing for the encoding of the MAC of \<^verbatim>\<open>HS256.fresh\<close> under
  the key \<^verbatim>\<open>secret\<close> followed by one zero byte.\<close>

definition padded_key_lib :: jwt_lib where
  "padded_key_lib =
     with_hmac (\<lambda>h. rev)
       (demo_lib\<lparr>DecodeSegment := (\<lambda>s.
          if s = ''sig'' then Some (hmac rev 64 (''secret'' @ [CHR 0x00]) ''HS256.fresh'')
          else Some s)\<rparr>)"

definition demo_platform :: platform where
  "demo_platform = \<lparr>ParseURL = Some, Ping = (\<lambda>rdb. True), Listen = (\<lambda>addr. True)\<rparr>"

text \<open>The registries the shared variant can be in: it starts empty; a handler allocates
  a client whose address is not registered and sends it on \<^verbatim>\<open>addClient\<close>; a handler
  exits and sends its client on \<^verbatim>\<open>removeClient\<close>; a payload is broadcast, the map being
  ranged over in some order; a handler receives from its queue.  The coordinator's own
  step function decides each command, so a step that panics leads nowhere.\<close>

inductive reachable :: "registry \<Rightarrow> bool" where
  start: "reachable empty_registry"
| connect: "reachable s \<Longrightarrow> clients s c = None \<Longrightarrow>
     clientManager_step (new_client s c) (AddClient c) = Inr s' \<Longrightarrow> reachable s'"
| disconnect: "reachable s \<Longrightarrow> clientManager_step s (RemoveClient c) = Inr s' \<Longrightarrow> reachable s'"
| publish: "reachable s \<Longrightarrow> range_order s order \<Longrightarrow>
     clientManager_step s (Broadcast msg order) = Inr s' \<Longrightarrow> reachable s'"
| deliver: "reachable s \<Longrightarrow> chan_recv (chans s c) = Some (m, ch) \<Longrightarrow>
     reachable (s\<lparr>chans := (chans s)(c := ch)\<rparr>)"

definition registry_inv :: "registry \<Rightarrow> bool" where
  "registry_inv s \<longleftrightarrow> registry_ok s \<and> finite (dom (clients s)) \<and>
     (\<forall>c. cap (chans s c) = 10 \<and> length (buf (chans s c)) \<le> 10)"

section \<open>Properties of the shared registry\<close>

text \<open>With every channel it ranges over open, a broadcast cannot panic, and its result
  is the client-by-client description, whatever the order of iteration.\<close>

lemma broadcast_range_eq:
  "distinct order \<Longrightarrow> (\<forall>c \<in> set order. \<not> closed (chans s c)) \<Longrightarrow>
   broadcast_range msg order s = Inr (after_broadcast msg order s)"
proof (induction order arbitrary: s)
  case Nil
  then show ?case by (simp add: after_broadcast_def)
next
  case (Cons a order)
  have open_a: "\<not> closed (chans s a)" using Cons.prems by simp
  have a_notin: "a \<notin> set order" and dist: "distinct order" using Cons.prems by simp_all
  show ?case
  proof (cases "length (buf (chans s a)) < cap (chans s a)")
    case True
    define s1 where "s1 = s\<lparr>chans := (chans s)(a := (chans s a)\<lparr>buf := buf (chans s a) @ [msg]\<rparr>)\<rparr>"
    have step: "broadcast_range msg (a # order) s = broadcast_range msg order s1"
      using True open_a by (simp add: chan_send_def s1_def)
    have "\<forall>c \<in> set order. \<not> closed (chans s1 c)"
      using Cons.prems a_notin by (auto simp: s1_def)
    from Cons.IH[OF dist this]
    have r: "broadcast_range msg order s1 = Inr (after_broadcast msg order s1)" .
    have "after_broadcast msg order s1 = after_broadcast msg (a # order) s"
      using True a_notin
      by (intro registry.equality) (auto simp: after_broadcast_def s1_def offer_def fun_eq_iff)
    with step r show ?thesis by simp
  next
    case False
    define s1 where "s1 = s\<lparr>clients := (clients s)(a := None),
      chans := (chans s)(a := (chans s a)\<lparr>closed := True\<rparr>)\<rparr>"
    have step: "broadcast_range msg (a # order) s = broadcast_range msg order s1"
      using False open_a by (simp add: chan_send_def chan_close_def s1_def Let_def)
    have "\<forall>c \<in> set order. \<not> closed (chans s1 c)"
      using Cons.prems a_notin by (auto simp: s1_def)
    from Cons.IH[OF dist this]
    have r: "broadcast_range msg order s1 = Inr (after_broadcast msg order s1)" .
    have "after_broadcast msg order s1 = after_broadcast msg (a # order) s"
      using False a_notin
      by (intro registry.equality) (auto simp: after_broadcast_def s1_def offer_def fun_eq_iff)
    with step r show ?thesis by simp
  qed
qed

lemma broadcast_step_eq:
  assumes "range_order s order" and "registry_ok s"
  shows "clientManager_step s (Broadcast msg order) = Inr (after_broadcast msg order s)"
proof -
  have "distinct order" using assms(1) by (simp add: range_order_def)
  moreover have "\<forall>c \<in> set order. \<not> closed (chans s c)"
    using assms by (auto simp: range_order_def registry_ok_def)
  ultimately show ?thesis using broadcast_range_eq by simp
qed

lemma registry_ok_after_broadcast:
  assumes "registry_ok r"
  shows "registry_ok (after_broadcast msg order r)"
  using assms by (auto simp: registry_ok_def after_broadcast_def offer_def split: if_splits)

text \<open>Every reachable registry satisfies the invariant, every queue in it has capacity
  10 and holds at most 10 payloads, and its map has an order to be ranged over.\<close>

lemma reachable_inv: "reachable s \<Longrightarrow> registry_inv s"
proof (induction rule: reachable.induct)
  case start
  then show ?case
    by (simp add: registry_inv_def registry_ok_def empty_registry_def make_chan_def)
next
  case (connect s c s')
  then show ?case
    by (auto simp: registry_inv_def registry_ok_def new_client_def make_chan_def
        split: if_splits)
next
  case (disconnect s c s')
  then show ?case
    by (auto simp: registry_inv_def registry_ok_def chan_close_def Let_def split: if_splits)
next
  case (publish s order msg s')
  then have ok: "registry_ok s" by (simp add: registry_inv_def)
  with publish have s': "s' = after_broadcast msg order s"
    using broadcast_step_eq by simp
  have "registry_ok s'" unfolding s' using ok by (rule registry_ok_after_broadcast)
  moreover have "dom (clients s') \<subseteq> dom (clients s)"
    unfolding s' by (auto simp: after_broadcast_def split: if_splits)
  then have "finite (dom (clients s'))"
    using publish.IH by (auto simp: registry_inv_def intro: finite_subset)
  moreover have "\<forall>c. cap (chans s' c) = 10 \<and> length (buf (chans s' c)) \<le> 10"
    unfolding s' using publish.IH by (auto simp: registry_inv_def after_broadcast_def offer_def)
  ultimately show ?case by (simp add: registry_inv_def)
next
  case (deliver s c m ch)
  then have inv: "registry_inv s" by simp
  have len: "length (buf (chans s c)) \<le> 10" "cap (chans s c) = 10"
    using inv by (simp_all add: registry_inv_def)
  from deliver.hyps(2) have ch: "cap ch = cap (chans s c)"
      "length (buf ch) \<le> length (buf (chans s c))" "closed ch = closed (chans s c)"
    by (auto simp: chan_recv_def split: list.splits if_splits)
  have small: "length (buf ch) \<le> 10" "cap ch = 10" using len ch by simp_all
  show ?case using inv small ch(3) by (auto simp: registry_inv_def registry_ok_def)
qed

lemma reachable_range_order: "reachable s \<Longrightarrow> \<exists>order. range_order s order"
  using reachable_inv[of s] finite_distinct_list[of "dom (clients s)"]
  by (auto simp: registry_inv_def range_order_def)

text \<open>
  C6.  Shared topology: in a registry whose registered channels are open (the
  invariant \<open>registry_ok\<close>), with \<open>A\<close> and \<open>B\<close> registered, \<open>A\<close>'s queue full and \<open>B\<close>'s
  not, one broadcast command, in whatever order the map is ranged over, does not
  panic, removes \<open>A\<close> from the registry and closes \<open>A\<close>'s queue, and leaves \<open>B\<close>
  registered and open with the message appended to its queue.
\<close>

theorem broadcast_evicts_full_delivers_other:
  assumes reg: "clients s A \<noteq> None" "clients s B \<noteq> None"
    and ord: "range_order s order"
    and inv: "registry_ok s"
    and full: "length (buf (chans s A)) = cap (chans s A)"
    and room: "length (buf (chans s B)) < cap (chans s B)"
  shows "\<exists>s'. clientManager_step s (Broadcast msg order) = Inr s' \<and>
     clients s' A = None \<and> closed (chans s' A) \<and>
     clients s' B = clients s B \<and> \<not> closed (chans s' B) \<and>
     buf (chans s' B) = buf (chans s B) @ [msg]"
proof -
  let ?s' = "after_broadcast msg order s"
  have mem: "A \<in> set order" "B \<in> set order"
    using ord reg by (auto simp: range_order_def)
  have open_B: "\<not> closed (chans s B)"
    using inv reg by (simp add: registry_ok_def)
  have "clientManager_step s (Broadcast msg order) = Inr ?s'"
    using broadcast_step_eq[OF ord inv] .
  moreover have "clients ?s' A = None" "closed (chans ?s' A)"
    using mem full by (simp_all add: after_broadcast_def offer_def)
  moreover have "clients ?s' B = clients s B" "\<not> closed (chans ?s' B)"
      "buf (chans ?s' B) = buf (chans s B) @ [msg]"
    using mem room open_B by (simp_all add: after_broadcast_def offer_def)
  ultimately show ?thesis by blast
qed

theorem broadcast_evicts_full_delivers_other_witness:
  "\<exists>s'. clientManager_step
       \<lparr>clients = [0 \<mapsto> True, 1 \<mapsto> True],
        chans = (\<lambda>c. make_chan 10)(0 := \<lparr>buf = replicate 10 ''old'', cap = 10, closed = False\<rparr>)\<rparr>
       (Broadcast ''new'' [1, 0]) = Inr s' \<and>
     clients s' 0 = None \<and> closed (chans s' 0) \<and>
     clients s' 1 = Some True \<and> \<not> closed (chans s' 1) \<and> buf (chans s' 1) = [''new'']"
  using broadcast_evicts_full_delivers_other
    [of "\<lparr>clients = [0 \<mapsto> True, 1 \<mapsto> True],
          chans = (\<lambda>c. make_chan 10)(0 := \<lparr>buf = replicate 10 ''old'', cap = 10, closed = False\<rparr>)\<rparr>"
        0 1 "[1, 0]" "''new''"]
  by (auto simp: range_order_def registry_ok_def make_chan_def)

text \<open>
  C7.  Shared topology: a connection is registered, eleven broadcasts arrive while its
  handler reads nothing (the eleventh finds the queue of ten full and evicts the
  connection, closing its queue), and the handler then exits and deregisters.  The
  coordinator applies \<^verbatim>\<open>close\<close> to the same queue a second time and panics.
\<close>

theorem eviction_then_deregistration_panics:
  "clientManager (new_client empty_registry 0)
     (AddClient 0 # replicate 11 (Broadcast ''m'' [0]) @ [RemoveClient 0])
   = Inl CloseOfClosedChannel"
  by (simp add: new_client_def empty_registry_def make_chan_def chan_send_def chan_close_def
      eval_nat_numeral)

section \<open>Properties of the token verifier\<close>

text \<open>The verifier returns claims exactly when the token is three segments whose header
  names an HMAC method, whose signature is the MAC of the first two segments under the
  secret, whose claims decode, and whose claims pass the default validation; the claims
  returned are the decoded ones.\<close>

lemma verifySseToken_Inr_iff:
  "verifySseToken L tok secret = Inr c \<longleftrightarrow>
     hmac_signed L tok secret \<and> embedded_claims L tok = Some c \<and> Validate (time_Now L) c = []"
  unfolding verifySseToken_def ParseWithClaims_def ParseUnverified_def keyFunc_def
    hmac_signed_def header_alg_def embedded_claims_def
  by (auto split: option.splits sum.splits prod.splits signing_method.splits list.splits if_splits
      simp: Let_def)

lemma GetSigningMethod_HMAC: "GetSigningMethod alg = Some (SigningMethodHMAC h) \<Longrightarrow> is_hmac_alg alg"
  by (simp add: GetSigningMethod_def is_hmac_alg_def split: if_splits)

lemma hmac_signed_alg:
  assumes "hmac_signed L tok key"
  shows "\<exists>alg. header_alg L tok = Some alg \<and> is_hmac_alg alg"
proof (cases "header_alg L tok")
  case None
  with assms show ?thesis by (simp add: hmac_signed_def split: option.splits prod.splits)
next
  case (Some alg)
  with assms obtain h where "GetSigningMethod alg = Some (SigningMethodHMAC h)"
    by (cases "GetSigningMethod alg")
       (auto simp: hmac_signed_def split: option.splits prod.splits signing_method.splits)
  with Some show ?thesis using GetSigningMethod_HMAC by blast
qed

lemma verifySseToken_empty: "verifySseToken L '''' secret = Inl (TokenParseError ErrTokenMalformed)"
  by (simp add: verifySseToken_def ParseWithClaims_def ParseUnverified_def splitToken_def)

lemma hmac_signed_iff:
  "hmac_signed L tok key \<longleftrightarrow>
     (\<exists>p0 p1 p2 h. splitToken tok = Some (p0, p1, p2) \<and> hmac_hash L tok = Some h \<and>
        DecodeSegment L p2 = Some (hmac_Sum L h key (signing_input tok)))"
  unfolding hmac_signed_def hmac_hash_def signing_input_def
  by (auto split: option.splits prod.splits signing_method.splits)

text \<open>
  C3, as the code has it.  A token is rejected with an error, and no claims are
  returned, in each of these cases: its signature is the HMAC under a key \<open>k'\<close> other
  than the configured secret, and the MAC of the token's signing input under \<open>k'\<close>
  differs from the MAC under the configured secret; its header declares an algorithm
  other than HS256, HS384 and HS512; its claims carry an expiry that is not after the
  current time.
\<close>

theorem verifySseToken_rejects:
  assumes "(k' \<noteq> secret \<and> hmac_signed L tok k' \<and> hmac_hash L tok = Some h \<and>
        hmac_Sum L h k' (signing_input tok) \<noteq> hmac_Sum L h secret (signing_input tok))
      \<or> (header_alg L tok = Some alg \<and> \<not> is_hmac_alg alg)
      \<or> (embedded_claims L tok = Some c \<and> ExpiresAt c = Some e \<and> e \<le> time_Now L)"
  shows "\<exists>err. verifySseToken L tok secret = Inl err"
proof -
  have "verifySseToken L tok secret \<noteq> Inr c'" for c'
  proof
    assume "verifySseToken L tok secret = Inr c'"
    then have s: "hmac_signed L tok secret" and e: "embedded_claims L tok = Some c'"
      and v: "Validate (time_Now L) c' = []"
      by (simp_all add: verifySseToken_Inr_iff)
    from assms consider
      (key) "hmac_signed L tok k'" "hmac_hash L tok = Some h"
        "hmac_Sum L h k' (signing_input tok) \<noteq> hmac_Sum L h secret (signing_input tok)"
      | (alg) "header_alg L tok = Some alg" "\<not> is_hmac_alg alg"
      | (expired) "embedded_claims L tok = Some c" "ExpiresAt c = Some e" "e \<le> time_Now L"
      by blast
    then show False
    proof cases
      case key
      from key(1,2) obtain p0 p1 p2 where
        "splitToken tok = Some (p0, p1, p2)"
        "DecodeSegment L p2 = Some (hmac_Sum L h k' (signing_input tok))"
        by (auto simp: hmac_signed_iff)
      moreover from s key(2) this(1) have
        "DecodeSegment L p2 = Some (hmac_Sum L h secret (signing_input tok))"
        by (auto simp: hmac_signed_iff)
      ultimately show False using key(3) by simp
    next
      case alg
      with hmac_signed_alg[OF s] show False by auto
    next
      case expired
      with e have "c' = c" by simp
      with v expired show False by (simp add: Validate_def)
    qed
  qed
  then show ?thesis by (cases "verifySseToken L tok secret") auto
qed

theorem verifySseToken_rejects_witness:
  "(hmac_signed demo_lib ''HS256.fresh.other/HS256fresh'' ''other'' \<and>
    hmac_hash demo_lib ''HS256.fresh.other/HS256fresh'' = Some SHA256 \<and>
    verifySseToken demo_lib ''HS256.fresh.other/HS256fresh'' ''secret''
      = Inl (TokenParseError ErrTokenSignatureInvalid)) \<and>
   (header_alg demo_lib ''RS256.fresh.secret/RS256fresh'' = Some ''RS256'' \<and>
    verifySseToken demo_lib ''RS256.fresh.secret/RS256fresh'' ''secret''
      = Inl (TokenParseError ErrTokenUnverifiable)) \<and>
   (embedded_claims demo_lib ''HS256.stale.secret/HS256stale'' = Some (demo_claims (Some 50) None) \<and>
    verifySseToken demo_lib ''HS256.stale.secret/HS256stale'' ''secret''
      = Inl (TokenParseError (ErrTokenInvalidClaims [ErrTokenExpired])))"
  using
    verifySseToken_rejects [of "''other''" "''secret''" demo_lib "''HS256.fresh.other/HS256fresh''"
      SHA256]
    verifySseToken_rejects [of _ "''secret''" demo_lib "''RS256.fresh.secret/RS256fresh''" _
      "''RS256''"]
    verifySseToken_rejects [of _ "''secret''" demo_lib "''HS256.stale.secret/HS256stale''" _ _
      "demo_claims (Some 50) None" 50]
  by (simp add: verifySseToken_def ParseWithClaims_def ParseUnverified_def keyFunc_def
      hmac_signed_def hmac_hash_def header_alg_def embedded_claims_def splitToken_def
      GetSigningMethod_def Validate_def demo_lib_def demo_claims_def Let_def)

text \<open>HMAC fills a short key up with zero bytes, so a key and the same key followed by a
  zero byte give the same MAC, whatever the hash function.\<close>

lemma hmac_key_zero:
  assumes "length key < blocksize"
  shows "hmac_key H blocksize (key @ [CHR 0x00]) = hmac_key H blocksize key"
proof -
  have "replicate (blocksize - length key) (CHR 0x00) =
      CHR 0x00 # replicate (blocksize - Suc (length key)) (CHR 0x00)"
    using assms by (cases "blocksize - length key") (auto simp: Suc_diff_Suc)
  with assms show ?thesis by (simp add: hmac_key_def)
qed

lemma hmac_zero:
  "length key < blocksize \<Longrightarrow> hmac H blocksize (key @ [CHR 0x00]) m = hmac H blocksize key m"
  by (simp add: hmac_def hmac_key_zero)

lemma BlockSize_ge: "64 \<le> BlockSize h"
  by (cases h) (simp_all add: BlockSize_def)

text \<open>With HMAC as the MAC, over any hash functions and any decoders: a token signed with
  the configured secret followed by a zero byte (a secret shorter than 64 bytes) is
  accepted under the configured secret when its claims are valid.\<close>

lemma zero_padded_key_is_accepted:
  assumes "length secret < 64"
    and "hmac_signed (with_hmac H L) tok (secret @ [CHR 0x00])"
    and "embedded_claims (with_hmac H L) tok = Some c"
    and "Validate (time_Now (with_hmac H L)) c = []"
  shows "verifySseToken (with_hmac H L) tok secret = Inr c"
proof -
  let ?L = "with_hmac H L"
  from assms(2) obtain p0 p1 p2 h where
    parts: "splitToken tok = Some (p0, p1, p2)" "hmac_hash ?L tok = Some h"
      "DecodeSegment ?L p2 = Some (hmac_Sum ?L h (secret @ [CHR 0x00]) (signing_input tok))"
    by (auto simp: hmac_signed_iff)
  have "length secret < BlockSize h"
    using assms(1) BlockSize_ge[of h] by simp
  then have "hmac_Sum ?L h (secret @ [CHR 0x00]) (signing_input tok)
      = hmac_Sum ?L h secret (signing_input tok)"
    by (simp add: with_hmac_def hmac_zero)
  with parts have "hmac_signed ?L tok secret"
    by (auto simp: hmac_signed_iff)
  with assms(3,4) show ?thesis by (simp add: verifySseToken_Inr_iff)
qed

text \<open>The specification's sentence fails as written: this token is signed with a secret
  different from the configured one, the configured secret followed by a zero byte,
  and the verifier accepts it and returns its claims.\<close>

theorem verifySseToken_accepts_zero_padded_key:
  "''secret'' @ [CHR 0x00] \<noteq> ''secret'' \<and>
   hmac_signed padded_key_lib ''HS256.fresh.sig'' (''secret'' @ [CHR 0x00]) \<and>
   verifySseToken padded_key_lib ''HS256.fresh.sig'' ''secret''
     = Inr (demo_claims (Some 200) None)"
proof -
  have lib: "padded_key_lib = with_hmac (\<lambda>h. rev)
       (demo_lib\<lparr>DecodeSegment := (\<lambda>s.
          if s = ''sig'' then Some (hmac rev 64 (''secret'' @ [CHR 0x00]) ''HS256.fresh'')
          else Some s)\<rparr>)"
    by (simp add: padded_key_lib_def)
  have signed: "hmac_signed padded_key_lib ''HS256.fresh.sig'' (''secret'' @ [CHR 0x00])"
    by (simp add: padded_key_lib_def with_hmac_def demo_lib_def hmac_signed_def header_alg_def
        splitToken_def GetSigningMethod_def BlockSize_def)
  have claims: "embedded_claims padded_key_lib ''HS256.fresh.sig'' = Some (demo_claims (Some 200) None)"
    by (simp add: padded_key_lib_def with_hmac_def demo_lib_def embedded_claims_def splitToken_def)
  have valid: "Validate (time_Now padded_key_lib) (demo_claims (Some 200) None) = []"
    by (simp add: padded_key_lib_def with_hmac_def demo_lib_def demo_claims_def Validate_def)
  have "verifySseToken padded_key_lib ''HS256.fresh.sig'' ''secret''
     = Inr (demo_claims (Some 200) None)"
    using zero_padded_key_is_accepted[of "''secret''" "\<lambda>h. rev" _ "''HS256.fresh.sig''"
        "demo_claims (Some 200) None"] signed claims valid
    unfolding lib by simp
  with signed show ?thesis by simp
qed

text \<open>A token whose claims carry a not-before instant that is still ahead is rejected,
  whatever the library's primitives are and however it is signed.\<close>

lemma not_yet_valid_token_is_rejected:
  assumes "embedded_claims L tok = Some c" "NotBefore c = Some n" "time_Now L < n"
  shows "\<exists>err. verifySseToken L tok secret = Inl err"
proof -
  have "verifySseToken L tok secret \<noteq> Inr c'" for c'
    using assms by (auto simp: verifySseToken_Inr_iff Validate_def split: option.splits)
  then show ?thesis by (cases "verifySseToken L tok secret") auto
qed

text \<open>
  C4, as the code has it.  A token of three segments whose header names an HMAC method,
  whose signature is the HMAC of the first two segments under the configured secret,
  whose claims decode to \<open>c\<close> with an expiry after the current time and with no
  not-before instant ahead of the current time, is accepted: the verifier returns \<open>c\<close>
  itself, so the \<open>UserID\<close> returned is the one embedded in the token.
\<close>

theorem verifySseToken_accepts:
  assumes "hmac_signed L tok secret" and "embedded_claims L tok = Some c"
    and "ExpiresAt c = Some e" and "time_Now L < e"
    and "case NotBefore c of None \<Rightarrow> True | Some n \<Rightarrow> n \<le> time_Now L"
  shows "verifySseToken L tok secret = Inr c \<and>
     (\<forall>c'. verifySseToken L tok secret = Inr c' \<longrightarrow> UserID c' = UserID c)"
  using assms by (simp add: verifySseToken_Inr_iff Validate_def split: option.splits)

theorem verifySseToken_accepts_witness:
  "hmac_signed demo_lib ''HS256.fresh.secret/HS256fresh'' ''secret'' \<and>
   embedded_claims demo_lib ''HS256.fresh.secret/HS256fresh'' = Some (demo_claims (Some 200) None) \<and>
   time_Now demo_lib < 200 \<and>
   verifySseToken demo_lib ''HS256.fresh.secret/HS256fresh'' ''secret''
     = Inr (demo_claims (Some 200) None) \<and>
   UserID (demo_claims (Some 200) None) = 42"
  using verifySseToken_accepts [of demo_lib "''HS256.fresh.secret/HS256fresh''" "''secret''"
      "demo_claims (Some 200) None" 200]
  by (simp add: hmac_signed_def header_alg_def embedded_claims_def splitToken_def
      GetSigningMethod_def demo_lib_def demo_claims_def)

text \<open>The specification's sentence fails as written: this token is well formed, HMAC-signed with the
  configured secret and expires in the future (at 200, the clock reading 100), and it
  is rejected because its not-before instant (150) is still ahead.\<close>

theorem verifySseToken_future_expiry_rejected:
  "hmac_signed demo_lib ''HS256.early.secret/HS256early'' ''secret'' \<and>
   embedded_claims demo_lib ''HS256.early.secret/HS256early'' = Some (demo_claims (Some 200) (Some 150)) \<and>
   ExpiresAt (demo_claims (Some 200) (Some 150)) = Some 200 \<and>
   time_Now demo_lib < 200 \<and>
   verifySseToken demo_lib ''HS256.early.secret/HS256early'' ''secret''
     = Inl (TokenParseError (ErrTokenInvalidClaims [ErrTokenNotValidYet]))"
  by (simp add: verifySseToken_def ParseWithClaims_def ParseUnverified_def keyFunc_def
      hmac_signed_def header_alg_def embedded_claims_def splitToken_def GetSigningMethod_def
      Validate_def demo_lib_def demo_claims_def Let_def)

section \<open>Properties of the dispatcher and of the per-connection bridge\<close>

lemma new_conn_ok: "conn_ok new_conn"
  by (simp add: conn_ok_def new_conn_def make_chan_def)

lemma forward_ok:
  assumes "conn_ok s"
  shows "\<exists>s'. forward userID msg s = Inr s' \<and> conn_ok s' \<and> writes s' = writes s \<and>
     (case msg of
        None \<Rightarrow> s' = s
      | Some payload \<Rightarrow>
          if length (buf (queue s)) < 10
          then buf (queue s') = buf (queue s) @ [payload] \<and> drops s' = drops s
          else buf (queue s') = buf (queue s) \<and> drops s' = Suc (drops s))"
  using assms
  by (cases msg) (auto simp: forward_def conn_ok_def chan_send_def drops_def Let_def)

lemma dispatch_step_open:
  assumes "\<not> closed ch"
  shows "dispatch_step ch w =
    (case buf ch of [] \<Rightarrow> (ch, w) | m # rest \<Rightarrow> (ch\<lparr>buf := rest\<rparr>, w @ [sse_frame m]))"
  using assms by (simp add: dispatch_step_def chan_recv_def split: list.splits)

text \<open>On a closed queue that has run empty, every turn of the dispatcher receives the
  zero value and writes the frame of the empty payload.\<close>

lemma dispatch_step_closed_empty:
  assumes "closed ch" and "buf ch = []"
  shows "dispatch_step ch w = (ch, w @ [sse_frame ''''])"
  using assms by (simp add: dispatch_step_def chan_recv_def)

lemma read_ok:
  assumes "conn_ok s"
  shows "\<exists>s'. conn_step userID s QueueRead = Inr s' \<and> conn_ok s' \<and> accepted s' = accepted s \<and>
     drops s' = drops s \<and> prefix (writes s) (writes s')"
  using assms
  by (cases "buf (queue s)")
     (auto simp: conn_ok_def dispatch_step_open accepted_def drops_def)

lemma conn_step_ok:
  assumes "conn_ok s"
  shows "\<exists>s' ys. conn_step userID s ev = Inr s' \<and> conn_ok s' \<and>
     accepted s' = accepted s @ ys \<and> subseq ys (map sse_frame (received [ev])) \<and>
     drops s \<le> drops s' \<and> (drops s' = drops s \<longrightarrow> ys = map sse_frame (received [ev])) \<and>
     prefix (writes s) (writes s')"
proof (cases ev)
  case QueueRead
  with read_ok[OF assms, of userID] show ?thesis by auto
next
  case (BusMessage msg)
  from forward_ok[OF assms, of userID msg] obtain s' where
    f: "forward userID msg s = Inr s'" "conn_ok s'" "writes s' = writes s" and
    c: "case msg of
        None \<Rightarrow> s' = s
      | Some payload \<Rightarrow>
          if length (buf (queue s)) < 10
          then buf (queue s') = buf (queue s) @ [payload] \<and> drops s' = drops s
          else buf (queue s') = buf (queue s) \<and> drops s' = Suc (drops s)"
    by blast
  show ?thesis
  proof (cases msg)
    case None
    with f c BusMessage show ?thesis by (auto simp: accepted_def)
  next
    case (Some payload)
    show ?thesis
    proof (cases "length (buf (queue s)) < 10")
      case True
      with f c Some BusMessage show ?thesis
        by (intro exI[of _ s'] exI[of _ "[sse_frame payload]"]) (simp add: accepted_def)
    next
      case False
      with f c Some BusMessage show ?thesis
        by (intro exI[of _ s'] exI[of _ "[]"]) (simp add: accepted_def)
    qed
  qed
qed

lemma received_append: "received (xs @ ys) = received xs @ received ys"
  by (induction xs rule: received.induct) auto

text \<open>The run of a connection from a state that satisfies the invariant: it does not
  panic, the invariant holds at the end, and the frames accepted grow by a subsequence
  of the frames of the payloads received, by all of them when no drop was logged.\<close>

lemma run_conn_ok:
  assumes "conn_ok s"
  shows "\<exists>s' ys. run_conn userID s evs = Inr s' \<and> conn_ok s' \<and>
     accepted s' = accepted s @ ys \<and> subseq ys (map sse_frame (received evs)) \<and>
     drops s \<le> drops s' \<and> (drops s' = drops s \<longrightarrow> ys = map sse_frame (received evs)) \<and>
     prefix (writes s) (writes s')"
  using assms
proof (induction evs arbitrary: s)
  case Nil
  then show ?case by simp
next
  case (Cons ev evs)
  from conn_step_ok[OF Cons.prems, of userID ev] obtain s1 y1 where
    s1: "conn_step userID s ev = Inr s1" "conn_ok s1" "accepted s1 = accepted s @ y1"
      "subseq y1 (map sse_frame (received [ev]))" "drops s \<le> drops s1"
      "drops s1 = drops s \<longrightarrow> y1 = map sse_frame (received [ev])" "prefix (writes s) (writes s1)"
    by blast
  from Cons.IH[OF s1(2)] obtain s' ys where
    s': "run_conn userID s1 evs = Inr s'" "conn_ok s'" "accepted s' = accepted s1 @ ys"
      "subseq ys (map sse_frame (received evs))" "drops s1 \<le> drops s'"
      "drops s' = drops s1 \<longrightarrow> ys = map sse_frame (received evs)" "prefix (writes s1) (writes s')"
    by blast
  have rec: "received (ev # evs) = received [ev] @ received evs"
    using received_append[of "[ev]" evs] by simp
  have "run_conn userID s (ev # evs) = Inr s'" using s1(1) s'(1) by simp
  moreover have "accepted s' = accepted s @ (y1 @ ys)" using s1(3) s'(3) by simp
  moreover have "subseq (y1 @ ys) (map sse_frame (received (ev # evs)))"
    unfolding rec map_append using s1(4) s'(4) by (rule list_emb_append_mono)
  moreover have "drops s \<le> drops s'" using s1(5) s'(5) by simp
  moreover have "drops s' = drops s \<longrightarrow> y1 @ ys = map sse_frame (received (ev # evs))"
    unfolding rec map_append using s1(5,6) s'(5,6) by auto
  moreover have "prefix (writes s) (writes s')" using s1(7) s'(7) by (rule prefix_order.trans)
  ultimately show ?case using s'(2) by blast
qed

lemma run_conn_append:
  "run_conn userID s (evs @ later) =
     (case run_conn userID s evs of Inl p \<Rightarrow> Inl p | Inr s1 \<Rightarrow> run_conn userID s1 later)"
  by (induction evs arbitrary: s) (auto split: sum.splits)

lemma subseq_appendD1: "subseq (xs @ ys) zs \<Longrightarrow> subseq xs zs"
  by (metis list_emb_appendD list_emb_prefix)

text \<open>
  C5.  Per-connection topology: whatever bus messages and dispatcher turns a
  connection goes through, the run does not panic and its queue holds at most 10
  payloads; forwarding one more payload returns at once, appending it when the queue
  holds fewer than 10 and otherwise leaving the queue as it is and logging the drop.
  Shared topology: in a registry that satisfies the invariant, one broadcast, in any
  order of iteration, returns without panic, keeps the invariant (every registered
  queue open and within its capacity) and every capacity, appends the message to each
  registered queue with room, and removes from the registry and closes each registered
  queue that is full.  Every registry the shared variant can reach satisfies that
  invariant, has an order to be ranged over, and holds only queues of capacity 10 with
  at most 10 payloads.
\<close>

theorem queue_bounded_enqueue_never_blocks:
  "(\<exists>s. run_conn userID new_conn evs = Inr s \<and> cap (queue s) = 10 \<and>
      length (buf (queue s)) \<le> 10 \<and>
      (\<exists>s'. forward userID (Some payload) s = Inr s' \<and>
         (if length (buf (queue s)) < 10
          then buf (queue s') = buf (queue s) @ [payload] \<and> drops s' = drops s
          else buf (queue s') = buf (queue s) \<and> drops s' = Suc (drops s)))) \<and>
   (reachable r0 \<longrightarrow>
      registry_ok r0 \<and> (\<exists>order. range_order r0 order) \<and>
      (\<forall>c. cap (chans r0 c) = 10 \<and> length (buf (chans r0 c)) \<le> 10)) \<and>
   (range_order r order \<and> registry_ok r \<longrightarrow>
      (\<exists>r'. clientManager_step r (Broadcast msg order) = Inr r' \<and> registry_ok r' \<and>
         (\<forall>c. cap (chans r' c) = cap (chans r c)) \<and>
         (\<forall>c. clients r c \<noteq> None \<longrightarrow>
            (if length (buf (chans r c)) < cap (chans r c)
             then clients r' c = clients r c \<and> buf (chans r' c) = buf (chans r c) @ [msg]
             else clients r' c = None \<and> closed (chans r' c) \<and>
                  buf (chans r' c) = buf (chans r c)))))"
proof -
  from run_conn_ok[OF new_conn_ok, of userID evs] obtain s where
    s: "run_conn userID new_conn evs = Inr s" "conn_ok s" by blast
  from forward_ok[OF s(2), of userID "Some payload"] obtain s' where
    "forward userID (Some payload) s = Inr s'"
    "if length (buf (queue s)) < 10
       then buf (queue s') = buf (queue s) @ [payload] \<and> drops s' = drops s
       else buf (queue s') = buf (queue s) \<and> drops s' = Suc (drops s)"
    by auto
  with s have per_conn: "\<exists>s. run_conn userID new_conn evs = Inr s \<and> cap (queue s) = 10 \<and>
      length (buf (queue s)) \<le> 10 \<and>
      (\<exists>s'. forward userID (Some payload) s = Inr s' \<and>
         (if length (buf (queue s)) < 10
          then buf (queue s') = buf (queue s) @ [payload] \<and> drops s' = drops s
          else buf (queue s') = buf (queue s) \<and> drops s' = Suc (drops s)))"
    unfolding conn_ok_def by blast
  have reach: "registry_ok r0 \<and> (\<exists>order. range_order r0 order) \<and>
      (\<forall>c. cap (chans r0 c) = 10 \<and> length (buf (chans r0 c)) \<le> 10)"
    if "reachable r0"
    using reachable_inv[OF that] reachable_range_order[OF that] by (simp add: registry_inv_def)
  have shared: "\<exists>r'. clientManager_step r (Broadcast msg order) = Inr r' \<and> registry_ok r' \<and>
         (\<forall>c. cap (chans r' c) = cap (chans r c)) \<and>
         (\<forall>c. clients r c \<noteq> None \<longrightarrow>
            (if length (buf (chans r c)) < cap (chans r c)
             then clients r' c = clients r c \<and> buf (chans r' c) = buf (chans r c) @ [msg]
             else clients r' c = None \<and> closed (chans r' c) \<and>
                  buf (chans r' c) = buf (chans r c)))"
    if ord: "range_order r order" and inv: "registry_ok r"
  proof -
    let ?r' = "after_broadcast msg order r"
    have mem: "c \<in> set order" if "clients r c \<noteq> None" for c
      using ord that by (auto simp: range_order_def)
    have "clientManager_step r (Broadcast msg order) = Inr ?r'"
      using broadcast_step_eq[OF ord inv] .
    moreover have "registry_ok ?r'" using inv by (rule registry_ok_after_broadcast)
    moreover have "\<forall>c. cap (chans ?r' c) = cap (chans r c)"
      by (simp add: after_broadcast_def offer_def)
    moreover have "\<forall>c. clients r c \<noteq> None \<longrightarrow>
            (if length (buf (chans r c)) < cap (chans r c)
             then clients ?r' c = clients r c \<and> buf (chans ?r' c) = buf (chans r c) @ [msg]
             else clients ?r' c = None \<and> closed (chans ?r' c) \<and>
                  buf (chans ?r' c) = buf (chans r c))"
      using mem by (simp add: after_broadcast_def offer_def)
    ultimately show ?thesis by blast
  qed
  from per_conn reach shared show ?thesis by blast
qed

theorem queue_bounded_enqueue_never_blocks_witness:
  "(\<exists>s. run_conn 42 new_conn (replicate 11 (BusMessage (Some ''m''))) = Inr s \<and>
      buf (queue s) = replicate 10 ''m'' \<and> drops s = 1) \<and>
   reachable empty_registry \<and> registry_ok empty_registry \<and>
   range_order \<lparr>clients = [0 \<mapsto> True], chans = (\<lambda>c. make_chan 10)\<rparr> [0] \<and>
   registry_ok \<lparr>clients = [0 \<mapsto> True], chans = (\<lambda>c. make_chan 10)\<rparr> \<and>
   (\<exists>r'. clientManager_step \<lparr>clients = [0 \<mapsto> True], chans = (\<lambda>c. make_chan 10)\<rparr>
            (Broadcast ''m'' [0]) = Inr r' \<and>
      clients r' 0 = Some True \<and> buf (chans r' 0) = [''m''])"
  using queue_bounded_enqueue_never_blocks
    [of 42 "replicate 11 (BusMessage (Some ''m''))" "''m''" empty_registry
        "\<lparr>clients = [0 \<mapsto> True], chans = (\<lambda>c. make_chan 10)\<rparr>" "[0]" "''m''"]
  by (simp add: range_order_def registry_ok_def make_chan_def new_conn_def forward_def
      chan_send_def drops_def eval_nat_numeral reachable.start)


text \<open>Dispatcher turns on an open queue, as many as it holds payloads, write the frames of
  these payloads in queue order and leave the queue empty.\<close>

lemma drain_ok:
  assumes "conn_ok s" and "buf (queue s) = ps"
  shows "\<exists>s2. run_conn userID s (replicate (length ps) QueueRead) = Inr s2 \<and>
     writes s2 = writes s @ map sse_frame ps \<and> buf (queue s2) = [] \<and> drops s2 = drops s"
  using assms
proof (induction ps arbitrary: s)
  case Nil
  then show ?case by simp
next
  case (Cons p ps)
  define s1 where "s1 = s\<lparr>queue := (queue s)\<lparr>buf := ps\<rparr>, writes := writes s @ [sse_frame p]\<rparr>"
  have step: "conn_step userID s QueueRead = Inr s1"
    using Cons.prems by (simp add: conn_ok_def dispatch_step_open s1_def)
  have "conn_ok s1" "buf (queue s1) = ps"
    using Cons.prems by (simp_all add: conn_ok_def s1_def)
  from Cons.IH[OF this] obtain s2 where
    "run_conn userID s1 (replicate (length ps) QueueRead) = Inr s2"
    "writes s2 = writes s1 @ map sse_frame ps" "buf (queue s2) = []" "drops s2 = drops s1"
    by blast
  with step show ?case by (simp add: s1_def drops_def)
qed

text \<open>A run continued: the events after a run that reached \<open>s\<close> are run from \<open>s\<close>.\<close>

lemma run_conn_continue:
  assumes "run_conn userID s0 evs = Inr s"
  shows "run_conn userID s0 (evs @ later) = run_conn userID s later"
  using assms by (simp add: run_conn_append)

text \<open>One dispatcher turn of a connection writes the frame of the oldest queued payload
  and takes it off the queue; on an empty queue it does nothing.\<close>

lemma read_turn:
  assumes "conn_ok s"
  shows "\<exists>s1. run_conn userID s [QueueRead] = Inr s1 \<and> drops s1 = drops s \<and>
     (case buf (queue s) of
        [] \<Rightarrow> writes s1 = writes s \<and> buf (queue s1) = []
      | p # rest \<Rightarrow> writes s1 = writes s @ [sse_frame p] \<and> buf (queue s1) = rest)"
proof (cases "buf (queue s)")
  case Nil
  with assms show ?thesis by (simp add: conn_ok_def dispatch_step_open drops_def)
next
  case (Cons p rest)
  with assms show ?thesis by (simp add: conn_ok_def dispatch_step_open drops_def)
qed

text \<open>One bus message of a connection writes nothing; a payload is appended to the queue
  when it holds fewer than 10 and is dropped and logged otherwise; a nil message changes
  nothing.\<close>

lemma bus_turn:
  assumes "conn_ok s"
  shows "\<exists>s1. run_conn userID s [BusMessage (Some payload)] = Inr s1 \<and> writes s1 = writes s \<and>
     (if length (buf (queue s)) < 10
      then buf (queue s1) = buf (queue s) @ [payload] \<and> drops s1 = drops s
      else buf (queue s1) = buf (queue s) \<and> drops s1 = Suc (drops s))"
proof -
  from forward_ok[OF assms, of userID "Some payload"] obtain s1 where
    f: "forward userID (Some payload) s = Inr s1" and w: "writes s1 = writes s" and
    q: "if length (buf (queue s)) < 10
       then buf (queue s1) = buf (queue s) @ [payload] \<and> drops s1 = drops s
       else buf (queue s1) = buf (queue s) \<and> drops s1 = Suc (drops s)"
    by auto
  have "run_conn userID s [BusMessage (Some payload)] = Inr s1"
    using f by simp
  with w q show ?thesis by blast
qed

lemma nil_turn: "run_conn userID s [BusMessage None] = Inr s"
  by (simp add: forward_def)

text \<open>
  C8.  Per-connection topology: for every interleaving \<open>evs\<close> of bus messages and
  dispatcher turns of a connection, the run does not panic, and in the state \<open>s\<close> it
  reaches: a frame is \<^verbatim>\<open>data: \<close>, the payload, two newlines; the frames written to the
  client are a subsequence, in order, of the frames of the payloads the bridge
  received; when no drop was logged, the frames written followed by the frames of the
  payloads still queued are exactly the frames of the payloads received, in the order
  received, so what the client has seen is a prefix of it; whatever happens later only
  appends to what has been written; one more dispatcher turn writes exactly the frame
  of the oldest queued payload and takes it off the queue (and does nothing on an empty
  queue); one more bus message writes nothing and is appended to the queue when it
  holds fewer than 10 payloads, and is dropped and logged otherwise (a nil message
  changes nothing); and as many dispatcher turns as the queue holds payloads write
  exactly the frames of these payloads, oldest first, and empty the queue, so that
  with no drop logged the client has then been written exactly the frames of the
  payloads received, in the order received.
\<close>

theorem client_sees_ordered_subsequence:
  "\<exists>s. run_conn userID new_conn evs = Inr s \<and>
     sse_frame payload = ''data: '' @ payload @ ''\<newline>\<newline>'' \<and>
     subseq (writes s) (map sse_frame (received evs)) \<and>
     (drops s = 0 \<longrightarrow>
        writes s @ map sse_frame (buf (queue s)) = map sse_frame (received evs) \<and>
        prefix (writes s) (map sse_frame (received evs))) \<and>
     (\<forall>later. \<exists>s2. run_conn userID new_conn (evs @ later) = Inr s2 \<and>
        prefix (writes s) (writes s2)) \<and>
     (\<exists>s1. run_conn userID new_conn (evs @ [QueueRead]) = Inr s1 \<and> drops s1 = drops s \<and>
        (case buf (queue s) of
           [] \<Rightarrow> writes s1 = writes s \<and> buf (queue s1) = []
         | p # rest \<Rightarrow> writes s1 = writes s @ [sse_frame p] \<and> buf (queue s1) = rest)) \<and>
     (\<exists>s1. run_conn userID new_conn (evs @ [BusMessage (Some payload)]) = Inr s1 \<and>
        writes s1 = writes s \<and>
        (if length (buf (queue s)) < 10
         then buf (queue s1) = buf (queue s) @ [payload] \<and> drops s1 = drops s
         else buf (queue s1) = buf (queue s) \<and> drops s1 = Suc (drops s))) \<and>
     run_conn userID new_conn (evs @ [BusMessage None]) = Inr s \<and>
     (\<exists>s2. run_conn userID new_conn (evs @ replicate (length (buf (queue s))) QueueRead) = Inr s2 \<and>
        writes s2 = writes s @ map sse_frame (buf (queue s)) \<and> buf (queue s2) = [] \<and>
        (drops s = 0 \<longrightarrow> writes s2 = map sse_frame (received evs)))"
proof -
  from run_conn_ok[OF new_conn_ok, of userID evs] obtain s ys where
    s: "run_conn userID new_conn evs = Inr s" "conn_ok s" "accepted s = accepted new_conn @ ys"
      "subseq ys (map sse_frame (received evs))"
      "drops s = drops new_conn \<longrightarrow> ys = map sse_frame (received evs)"
    by blast
  have acc: "writes s @ map sse_frame (buf (queue s)) = ys"
    using s(3) by (simp add: accepted_def new_conn_def make_chan_def)
  have frame: "sse_frame payload = ''data: '' @ payload @ ''\<newline>\<newline>''"
    by (simp add: sse_frame_def)
  have sub: "subseq (writes s) (map sse_frame (received evs))"
    using s(4) acc subseq_appendD1 by metis
  have all: "drops s = 0 \<longrightarrow>
        writes s @ map sse_frame (buf (queue s)) = map sse_frame (received evs)"
    using s(5) acc by (simp add: drops_def new_conn_def)
  have nodrop: "drops s = 0 \<longrightarrow>
        writes s @ map sse_frame (buf (queue s)) = map sse_frame (received evs) \<and>
        prefix (writes s) (map sse_frame (received evs))"
  proof
    assume "drops s = 0"
    with all have eq: "writes s @ map sse_frame (buf (queue s)) = map sse_frame (received evs)"
      by simp
    then have "prefix (writes s) (map sse_frame (received evs))"
      by (metis prefixI)
    with eq show "writes s @ map sse_frame (buf (queue s)) = map sse_frame (received evs) \<and>
        prefix (writes s) (map sse_frame (received evs))" by simp
  qed
  have ext: "\<forall>later. \<exists>s2. run_conn userID new_conn (evs @ later) = Inr s2 \<and>
      prefix (writes s) (writes s2)"
  proof
    fix later
    show "\<exists>s2. run_conn userID new_conn (evs @ later) = Inr s2 \<and> prefix (writes s) (writes s2)"
      using run_conn_ok[OF s(2), of userID later] s(1) by (auto simp: run_conn_append)
  qed
  from read_turn[OF s(2), of userID] obtain s1 where
    t: "run_conn userID s [QueueRead] = Inr s1" "drops s1 = drops s"
      "case buf (queue s) of
         [] \<Rightarrow> writes s1 = writes s \<and> buf (queue s1) = []
       | p # rest \<Rightarrow> writes s1 = writes s @ [sse_frame p] \<and> buf (queue s1) = rest"
    by blast
  have "run_conn userID new_conn (evs @ [QueueRead]) = Inr s1"
    by (rule trans[OF run_conn_continue[OF s(1)] t(1)])
  with t(2,3) have turn: "\<exists>s1. run_conn userID new_conn (evs @ [QueueRead]) = Inr s1 \<and>
        drops s1 = drops s \<and>
        (case buf (queue s) of
           [] \<Rightarrow> writes s1 = writes s \<and> buf (queue s1) = []
         | p # rest \<Rightarrow> writes s1 = writes s @ [sse_frame p] \<and> buf (queue s1) = rest)"
    by blast
  from bus_turn[OF s(2), of userID payload] obtain s3 where
    b: "run_conn userID s [BusMessage (Some payload)] = Inr s3" "writes s3 = writes s"
      "if length (buf (queue s)) < 10
       then buf (queue s3) = buf (queue s) @ [payload] \<and> drops s3 = drops s
       else buf (queue s3) = buf (queue s) \<and> drops s3 = Suc (drops s)"
    by blast
  have "run_conn userID new_conn (evs @ [BusMessage (Some payload)]) = Inr s3"
    by (rule trans[OF run_conn_continue[OF s(1)] b(1)])
  with b(2,3) have bus: "\<exists>s1. run_conn userID new_conn (evs @ [BusMessage (Some payload)]) = Inr s1 \<and>
        writes s1 = writes s \<and>
        (if length (buf (queue s)) < 10
         then buf (queue s1) = buf (queue s) @ [payload] \<and> drops s1 = drops s
         else buf (queue s1) = buf (queue s) \<and> drops s1 = Suc (drops s))"
    by blast
  have nil: "run_conn userID new_conn (evs @ [BusMessage None]) = Inr s"
    by (rule trans[OF run_conn_continue[OF s(1)] nil_turn])
  from drain_ok[OF s(2) refl, of userID] obtain s2 where
    d: "run_conn userID s (replicate (length (buf (queue s))) QueueRead) = Inr s2"
      "writes s2 = writes s @ map sse_frame (buf (queue s))" "buf (queue s2) = []"
    by blast
  have d0: "run_conn userID new_conn (evs @ replicate (length (buf (queue s))) QueueRead) = Inr s2"
    by (rule trans[OF run_conn_continue[OF s(1)] d(1)])
  have d3: "drops s = 0 \<longrightarrow> writes s2 = map sse_frame (received evs)"
  proof
    assume z: "drops s = 0"
    show "writes s2 = map sse_frame (received evs)"
      by (rule trans[OF d(2) mp[OF all z]])
  qed
  have drain:
    "\<exists>s2. run_conn userID new_conn (evs @ replicate (length (buf (queue s))) QueueRead) = Inr s2 \<and>
        writes s2 = writes s @ map sse_frame (buf (queue s)) \<and> buf (queue s2) = [] \<and>
        (drops s = 0 \<longrightarrow> writes s2 = map sse_frame (received evs))"
    by (rule exI[of _ s2]) (rule conjI[OF d0 conjI[OF d(2) conjI[OF d(3) d3]]])
  note c = conjI[OF s(1) conjI[OF frame conjI[OF sub conjI[OF nodrop conjI[OF ext
        conjI[OF turn conjI[OF bus conjI[OF nil drain]]]]]]]]
  show ?thesis by (rule exI[of _ s]) (rule c)
qed

theorem client_sees_ordered_subsequence_witness:
  "(\<exists>s. run_conn 42 new_conn
          [BusMessage (Some ''m1''), BusMessage (Some ''m2''), QueueRead, BusMessage None,
           BusMessage (Some ''m3''), QueueRead] = Inr s \<and>
     drops s = 0 \<and>
     writes s = [''data: m1\<newline>\<newline>'', ''data: m2\<newline>\<newline>''] \<and> buf (queue s) = [''m3'']) \<and>
   (\<exists>s. run_conn 42 new_conn
          [BusMessage (Some ''m1''), BusMessage (Some ''m2''), QueueRead, BusMessage None,
           BusMessage (Some ''m3''), QueueRead, QueueRead] = Inr s \<and>
     writes s = [''data: m1\<newline>\<newline>'', ''data: m2\<newline>\<newline>'', ''data: m3\<newline>\<newline>''] \<and>
     buf (queue s) = [])"
  using client_sees_ordered_subsequence
    [of 42 "[BusMessage (Some ''m1''), BusMessage (Some ''m2''), QueueRead, BusMessage None,
             BusMessage (Some ''m3''), QueueRead]" "''m4''"]
  by (simp add: new_conn_def make_chan_def forward_def chan_send_def dispatch_step_def
      chan_recv_def drops_def sse_frame_def)


text \<open>The dispatcher after \<open>n\<close> turns on any queue: the frames of the first \<open>n\<close> queued
  payloads, in queue order, and on a closed queue one frame of the empty payload for
  every turn taken after the queue has run empty.\<close>

lemma dispatch_loop_eq:
  "dispatch_loop n ch w =
     (ch\<lparr>buf := drop n (buf ch)\<rparr>,
      w @ map sse_frame (take n (buf ch)) @
        (if closed ch then replicate (n - length (buf ch)) (sse_frame '''') else []))"
proof (induction n arbitrary: ch w)
  case 0
  then show ?case by simp
next
  case (Suc n)
  show ?case
  proof (cases "buf ch")
    case Nil
    show ?thesis
    proof (cases "closed ch")
      case True
      have "dispatch_step ch w = (ch, w @ [sse_frame ''''])"
        using True Nil by (rule dispatch_step_closed_empty)
      with Suc.IH[of ch "w @ [sse_frame '''']"] True Nil show ?thesis
        by (simp add: replicate_append_same)
    next
      case False
      have "dispatch_step ch w = (ch, w)" using False Nil by (simp add: dispatch_step_open)
      with Suc.IH[of ch w] False Nil show ?thesis by simp
    qed
  next
    case (Cons m rest)
    have st: "dispatch_step ch w = (ch\<lparr>buf := rest\<rparr>, w @ [sse_frame m])"
      using Cons by (simp add: dispatch_step_def chan_recv_def)
    from Suc.IH[of "ch\<lparr>buf := rest\<rparr>" "w @ [sse_frame m]"] st Cons show ?thesis
      by simp
  qed
qed


text \<open>
  C9.  Shared topology: a connection is registered and eleven payloads are broadcast
  while its handler reads nothing; ten are queued, the eleventh evicts the connection
  and closes its queue.  The dispatcher then takes twelve turns: it writes the ten
  frames of the queued payloads, in order, each \<^verbatim>\<open>data: \<close>, the payload, two newlines, and
  after them two frames of the empty payload, which no one forwarded.
\<close>

theorem evicted_dispatcher_writes_frames_of_no_payload:
  "\<exists>s. clientManager (new_client empty_registry 0)
          (AddClient 0 # replicate 11 (Broadcast ''m'' [0])) = Inr s \<and>
     clients s 0 = None \<and> closed (chans s 0) \<and> buf (chans s 0) = replicate 10 ''m'' \<and>
     snd (dispatch_loop 12 (chans s 0) []) =
       replicate 10 ''data: m\<newline>\<newline>'' @ [''data: \<newline>\<newline>'', ''data: \<newline>\<newline>'']"
  by (simp add: new_client_def empty_registry_def make_chan_def chan_send_def chan_close_def
      dispatch_loop_eq sse_frame_def eval_nat_numeral)

section \<open>Properties of the handler and of startup\<close>

text \<open>The handler of the per-connection variant: whenever verification fails it answers
  401 with the body \<^verbatim>\<open>Unauthorized\<close>, and neither a subscription nor a queue is created.\<close>

lemma sseHandler_unauthorized:
  assumes "verifySseToken L (Query_Get r ''ssetoken'') (Getenv e ''GO_SSE_SIDECAR_TOKEN'') = Inl err"
  shows "sseHandler L P e flusher r = Returned (http_Error (cors empty_response) ''Unauthorized'' 401)
     \<and> status_sent (http_Error (cors empty_response) ''Unauthorized'' 401) = 401
     \<and> \<not> allocates (sseHandler L P e flusher r)"
  using assms
  by (simp add: sseHandler_def http_Error_def WriteHeader_def Header_Set_def cors_def
      empty_response_def status_sent_def Let_def)

text \<open>The handler of the shared variant: whenever verification fails it returns with
  nothing written to the response but the two cross-origin headers, and neither a
  registration nor a queue is created.\<close>

lemma sseHandler_shared_rejected:
  assumes "verifySseToken L (Query_Get r ''ssetoken'') (Getenv e ''GO_SSE_SIDECAR_TOKEN'') = Inl err"
  shows "sseHandler_shared L e flusher r = Returned (cors empty_response)
     \<and> \<not> allocates (sseHandler_shared L e flusher r)"
  using assms by (simp add: sseHandler_shared_def Let_def)

text \<open>A token that verifies but carries no expiry makes either handler panic at the log
  line that reads the expiry; the server recovers a handler's panic and drops the
  connection.\<close>

lemma sseHandler_panics_without_exp:
  assumes "verifySseToken L (Query_Get r ''ssetoken'') (Getenv e ''GO_SSE_SIDECAR_TOKEN'') = Inr c"
    and "ExpiresAt c = None"
  shows "sseHandler L P e flusher r = Panicked NilPointerDereference"
    and "sseHandler_shared L e flusher r = Panicked NilPointerDereference"
  using assms by (simp_all add: sseHandler_def sseHandler_shared_def Let_def)

text \<open>
  C1.  A request without the \<^verbatim>\<open>ssetoken\<close> parameter.  In the shared variant
  verification fails, the handler returns without passing any status to the response,
  and the server sends 200, not 401; no queue is created and nothing is registered.
  The per-connection variant answers the same request with 401.
\<close>

theorem sseHandler_shared_missing_token_sends_200:
  "sseHandler_shared L e flusher \<lparr>query = Map.empty\<rparr> = Returned (cors empty_response) \<and>
   status (cors empty_response) = None \<and>
   status_sent (cors empty_response) = 200 \<and>
   \<not> allocates (sseHandler_shared L e flusher \<lparr>query = Map.empty\<rparr>) \<and>
   sseHandler L P e flusher \<lparr>query = Map.empty\<rparr>
     = Returned (http_Error (cors empty_response) ''Unauthorized'' 401) \<and>
   status_sent (http_Error (cors empty_response) ''Unauthorized'' 401) = 401"
  by (simp add: sseHandler_shared_def sseHandler_def Query_Get_def verifySseToken_empty cors_def
      http_Error_def WriteHeader_def Header_Set_def empty_response_def status_sent_def Let_def)

text \<open>
  C2, as the code has it.  When the bus URL is absent from the environment (unset or
  empty), startup exits with \<^verbatim>\<open>GO_SSE_SIDECAR_REDIS_URL not set\<close> and never reaches the
  listener; the signing secret plays no part in startup: setting, changing or unsetting
  it leaves the result of startup as it is.
\<close>

theorem startup_needs_bus_url_only:
  "(Getenv e ''GO_SSE_SIDECAR_REDIS_URL'' = '''' \<longrightarrow>
      main P e = Exits ''GO_SSE_SIDECAR_REDIS_URL not set'') \<and>
   main P (e(''GO_SSE_SIDECAR_TOKEN'' := v)) = main P e"
proof -
  let ?e' = "e(''GO_SSE_SIDECAR_TOKEN'' := v)"
  have url: "Getenv ?e' ''GO_SSE_SIDECAR_REDIS_URL'' = Getenv e ''GO_SSE_SIDECAR_REDIS_URL''"
    and port: "Getenv ?e' ''GO_SSE_SIDECAR_PORT'' = Getenv e ''GO_SSE_SIDECAR_PORT''"
    by (simp_all add: Getenv_def)
  have "getRedisClient P ?e' = getRedisClient P e"
    by (simp only: getRedisClient_def url)
  then have same: "main P ?e' = main P e"
    by (simp only: main_def port)
  have "main P e = Exits ''GO_SSE_SIDECAR_REDIS_URL not set''"
    if "Getenv e ''GO_SSE_SIDECAR_REDIS_URL'' = ''''"
    using that by (simp add: main_def getRedisClient_def)
  with same show ?thesis by simp
qed

theorem startup_needs_bus_url_only_witness:
  "Getenv [''GO_SSE_SIDECAR_TOKEN'' \<mapsto> ''secret''] ''GO_SSE_SIDECAR_REDIS_URL'' = '''' \<and>
   main demo_platform [''GO_SSE_SIDECAR_TOKEN'' \<mapsto> ''secret'']
     = Exits ''GO_SSE_SIDECAR_REDIS_URL not set''"
  using startup_needs_bus_url_only
    [of "[''GO_SSE_SIDECAR_TOKEN'' \<mapsto> ''secret'']" demo_platform]
  by (simp add: Getenv_def)

text \<open>The specification's sentence fails as written: with the bus URL set and the
  signing secret absent, startup goes on to serve on the default port, and the handler
  then verifies tokens against the empty secret: a token signed with the empty key is
  admitted to a stream.\<close>

theorem startup_without_secret_serves:
  "Getenv [''GO_SSE_SIDECAR_REDIS_URL'' \<mapsto> ''redis://localhost:6379/0''] ''GO_SSE_SIDECAR_TOKEN'' = '''' \<and>
   main demo_platform [''GO_SSE_SIDECAR_REDIS_URL'' \<mapsto> ''redis://localhost:6379/0'']
     = Serves ''5687'' \<and>
   allocates (sseHandler demo_lib demo_platform
     [''GO_SSE_SIDECAR_REDIS_URL'' \<mapsto> ''redis://localhost:6379/0''] True
     \<lparr>query = [''ssetoken'' \<mapsto> [''HS256.fresh./HS256fresh'']]\<rparr>)"
  by (simp add: main_def getRedisClient_def Getenv_def demo_platform_def sseHandler_def
      Query_Get_def verifySseToken_def ParseWithClaims_def ParseUnverified_def keyFunc_def
      splitToken_def GetSigningMethod_def Validate_def demo_lib_def demo_claims_def Let_def)

section \<open>Properties of the channel name\<close>

lemma digit_val_char: "d < 10 \<Longrightarrow> digit_val (digit_char d) = d"
  by (simp add: digit_val_def digit_char_def)

lemma undigits_snoc: "undigits (s @ [c]) = 10 * undigits s + digit_val c"
  by (simp add: undigits_def)

lemma undigits_digits: "undigits (digits n) = n"
proof (induction n rule: digits.induct)
  case (1 n)
  show ?case
  proof (cases "n < 10")
    case True
    then show ?thesis by (simp add: digits.simps[of n] undigits_def digit_val_char)
  next
    case False
    then have "digits n = digits (n div 10) @ [digit_char (n mod 10)]"
      by (simp add: digits.simps[of n])
    then have "undigits (digits n) =
        10 * undigits (digits (n div 10)) + digit_val (digit_char (n mod 10))"
      by (simp only: undigits_snoc)
    also have "\<dots> = 10 * (n div 10) + n mod 10"
      using 1 False by (simp add: digit_val_char)
    finally show ?thesis by simp
  qed
qed

lemma digit_char_not_minus: "d < 10 \<Longrightarrow> digit_char d \<noteq> CHR ''-''"
proof
  assume d: "d < 10" and e: "digit_char d = CHR ''-''"
  then have "of_char (digit_char d) = (of_char (CHR ''-'') :: nat)" by simp
  with d show False by (simp add: digit_char_def)
qed

lemma digits_first: "\<exists>d rest. d < 10 \<and> digits n = digit_char d # rest"
proof (induction n rule: digits.induct)
  case (1 n)
  show ?case
  proof (cases "n < 10")
    case True
    then have "digits n = [digit_char n]" by (simp add: digits.simps[of n])
    with True show ?thesis by blast
  next
    case False
    with 1 obtain d rest where "d < 10" "digits (n div 10) = digit_char d # rest" by blast
    with False have "digits n = digit_char d # (rest @ [digit_char (n mod 10)])"
      by (simp add: digits.simps[of n])
    with \<open>d < 10\<close> show ?thesis by blast
  qed
qed

lemma digits_not_minus: "digits n \<noteq> CHR ''-'' # s"
proof
  assume e: "digits n = CHR ''-'' # s"
  from digits_first[of n] obtain d rest where d: "d < 10" "digits n = digit_char d # rest"
    by blast
  with e have "digit_char d = CHR ''-''" by simp
  with digit_char_not_minus[OF d(1)] show False by simp
qed

lemma digits_inj: "digits m = digits n \<Longrightarrow> m = n"
  by (metis undigits_digits)

lemma fmt_d_inj: "fmt_d i = fmt_d j \<Longrightarrow> i = j"
proof -
  assume e: "fmt_d i = fmt_d j"
  show "i = j"
  proof (cases "i < 0"; cases "j < 0")
    assume "i < 0" "j < 0"
    with e have "digits (nat (- i)) = digits (nat (- j))" by (simp add: fmt_d_def)
    then have "nat (- i) = nat (- j)" by (rule digits_inj)
    with \<open>i < 0\<close> \<open>j < 0\<close> show ?thesis by simp
  next
    assume "i < 0" "\<not> j < 0"
    with e have "digits (nat j) = CHR ''-'' # digits (nat (- i))" by (simp add: fmt_d_def)
    with digits_not_minus show ?thesis by blast
  next
    assume "\<not> i < 0" "j < 0"
    with e have "digits (nat i) = CHR ''-'' # digits (nat (- j))" by (simp add: fmt_d_def)
    with digits_not_minus show ?thesis by blast
  next
    assume "\<not> i < 0" "\<not> j < 0"
    with e have "digits (nat i) = digits (nat j)" by (simp add: fmt_d_def)
    then have "nat i = nat j" by (rule digits_inj)
    with \<open>\<not> i < 0\<close> \<open>\<not> j < 0\<close> show ?thesis by simp
  qed
qed

lemma channelName_inj: "channelName u = channelName v \<Longrightarrow> u = v"
proof -
  assume "channelName u = channelName v"
  then have "fmt_d (sint u) = fmt_d (sint v)" by (simp add: channelName_def)
  then have "sint u = sint v" by (rule fmt_d_inj)
  then show "u = v" by (rule signed_word_eqI)
qed

lemma parse_fmt_d: "parse_d (fmt_d i) = i"
proof (cases "i < 0")
  case True
  then show ?thesis by (simp add: parse_d_def fmt_d_def undigits_digits)
next
  case False
  from digits_first[of "nat i"] obtain d rest where
    d: "d < 10" "digits (nat i) = digit_char d # rest" by blast
  then have "hd (digits (nat i)) \<noteq> CHR ''-''"
    using digit_char_not_minus by simp
  with False show ?thesis by (simp add: parse_d_def fmt_d_def undigits_digits)
qed

lemma bus_of_other_channel:
  assumes "other \<noteq> userID"
  shows "bus_of (map (Pair (channelName other)) payloads) (channelName userID) = Some []"
proof -
  have "channelName other \<noteq> channelName userID"
    using assms channelName_inj by blast
  then show ?thesis
    by (simp add: bus_of_def filter_empty_conv)
qed

lemma fmt_d_42: "fmt_d 42 = ''42''"
  by (simp add: fmt_d_def digits.simps digit_char_def char_of_eq_iff)

lemma channelName_42: "channelName 42 = ''events:user:42''"
  by (simp add: channelName_def fmt_d_42)

lemma channelName_minus_7: "channelName (- 7) = ''events:user:-7''"
  by (simp add: channelName_def fmt_d_def digits.simps digit_char_def char_of_eq_iff)

text \<open>
  C10.  Per-connection topology: the channel name of a user ID is \<^verbatim>\<open>events:user:\<close>
  followed by the decimal rendering of the ID read as a signed 64-bit integer, a
  rendering that reads back as the same integer; when the handler starts a
  subscription, the token was verified and the subscription is started for the
  verified \<open>UserID\<close>; \<open>subscribeToUserChannel\<close> consults the bus at the channel name of
  its user ID and nowhere else; the mapping from user IDs to channel names is
  injective; so on a bus that carries only payloads published on the channel of
  another identity, the subscription of this identity forwards nothing: the connection
  is left as it was.
\<close>

theorem channelName_exact_and_injective:
  "channelName userID = ''events:user:'' @ fmt_d (sint userID) \<and>
   parse_d (fmt_d (sint userID)) = sint userID \<and>
   (sseHandler L P e flusher r = Subscribed w u ch \<longrightarrow>
      (\<exists>c. verifySseToken L (Query_Get r ''ssetoken'') (Getenv e ''GO_SSE_SIDECAR_TOKEN'') = Inr c \<and>
           u = UserID c)) \<and>
   subscribeToUserChannel b userID s =
     (case b (channelName userID) of
        None \<Rightarrow> Inr s
      | Some msgs \<Rightarrow> run_conn userID s (map BusMessage msgs)) \<and>
   inj channelName \<and>
   (other \<noteq> userID \<longrightarrow>
      subscribeToUserChannel (bus_of (map (Pair (channelName other)) payloads)) userID new_conn
        = Inr new_conn)"
proof -
  have handler: "\<exists>c. verifySseToken L (Query_Get r ''ssetoken'') (Getenv e ''GO_SSE_SIDECAR_TOKEN'') = Inr c \<and>
           u = UserID c"
    if "sseHandler L P e flusher r = Subscribed w u ch"
    using that
    by (auto simp: sseHandler_def Let_def split: sum.splits option.splits if_splits)
  have "inj channelName" using channelName_inj by (auto simp: inj_def)
  moreover have "other \<noteq> userID \<longrightarrow>
      subscribeToUserChannel (bus_of (map (Pair (channelName other)) payloads)) userID new_conn
        = Inr new_conn"
    by (simp add: subscribeToUserChannel_def bus_of_other_channel)
  moreover have "subscribeToUserChannel b userID s =
     (case b (channelName userID) of
        None \<Rightarrow> Inr s
      | Some msgs \<Rightarrow> run_conn userID s (map BusMessage msgs))"
    by (simp add: subscribeToUserChannel_def)
  ultimately show ?thesis
    using handler by (simp add: channelName_def[of userID] parse_fmt_d)
qed

theorem channelName_exact_and_injective_witness:
  "channelName 42 = ''events:user:42'' \<and> channelName (- 7) = ''events:user:-7'' \<and>
   sseHandler demo_lib demo_platform
       [''GO_SSE_SIDECAR_REDIS_URL'' \<mapsto> ''redis://bus'', ''GO_SSE_SIDECAR_TOKEN'' \<mapsto> ''secret''] True
       \<lparr>query = [''ssetoken'' \<mapsto> [''HS256.fresh.secret/HS256fresh'']]\<rparr>
     = Subscribed (sse_headers (cors empty_response)) 42 (make_chan 10) \<and>
   subscribeToUserChannel (bus_of [(''events:user:-7'', ''for -7'')]) 42 new_conn = Inr new_conn \<and>
   (\<exists>s. subscribeToUserChannel (bus_of [(''events:user:-7'', ''for -7''), (''events:user:42'', ''for 42'')])
          42 new_conn = Inr s \<and> buf (queue s) = [''for 42''])"
  using channelName_exact_and_injective
    [of 42 demo_lib demo_platform
        "[''GO_SSE_SIDECAR_REDIS_URL'' \<mapsto> ''redis://bus'', ''GO_SSE_SIDECAR_TOKEN'' \<mapsto> ''secret'']"
        True "\<lparr>query = [''ssetoken'' \<mapsto> [''HS256.fresh.secret/HS256fresh'']]\<rparr>"
        "sse_headers (cors empty_response)" 42 "make_chan 10"
        "bus_of [(''events:user:-7'', ''for -7'')]" new_conn "- 7" "[''for -7'']"]
  by (simp add: channelName_42 channelName_minus_7 fmt_d_42
      bus_of_def subscribeToUserChannel_def sseHandler_def Query_Get_def Getenv_def
      getRedisClient_def verifySseToken_def ParseWithClaims_def ParseUnverified_def keyFunc_def
      splitToken_def GetSigningMethod_def Validate_def demo_lib_def demo_claims_def
      demo_platform_def new_conn_def make_chan_def forward_def chan_send_def Let_def)

end
